theory Spec2Isabelle
  imports Main "HOL-Library.Sublist" "HOL-Library.AList"
begin

section \<open>The object parser of pdfcpu (package model, parse.go)\<close>

text \<open>
  A Go \<^verbatim>\<open>string\<close> is a sequence of bytes: it is modelled as a \<^typ>\<open>string\<close>, a list of
  8-bit characters; \<^verbatim>\<open>len\<close> is \<^const>\<open>length\<close>, \<^verbatim>\<open>s[i:]\<close> is \<^term>\<open>drop i s\<close> and
  \<^verbatim>\<open>s[:i]\<close> is \<^term>\<open>take i s\<close>.

  A function of the source that takes \<^verbatim>\<open>line *string\<close> is modelled by a function that takes
  the value of \<^verbatim>\<open>*line\<close> at the call and returns a pair: the result (\<open>Inl\<close> the error,
  \<open>Inr\<close> the value) and the value of \<^verbatim>\<open>*line\<close> at the return, also when the call fails.
\<close>

subsection \<open>Errors\<close>

datatype num_error = ErrSyntax | ErrRange

datatype error =
    errArrayCorrupt
  | errArrayNotTerminated
  | errDictionaryCorrupt
  | errDictionaryDuplicateKey
  | errDictionaryNotTerminated
  | errHexLiteralCorrupt
  | errHexLiteralNotTerminated
  | errNameObjectCorrupt
  | errNoArray
  | errNoDictionary
  | errStringLiteralCorrupt
  | errBufNotAvailable
  | errXrefStreamMissingW
  | errXrefStreamCorruptW
  | errXrefStreamCorruptIndex
  | errObjStreamMissingN
  | errObjStreamMissingFirst
  | errAttrBufNotAvailable  \<comment> \<open>\<^verbatim>\<open>ParseObjectAttributes: buf not available\<close>\<close>
  | errAttrNoObj  \<comment> \<open>\<^verbatim>\<open>ParseObjectAttributes: can't find "obj"\<close>\<close>
  | errAttrNoObjectNumber  \<comment> \<open>\<^verbatim>\<open>ParseObjectAttributes: can't find object number\<close>\<close>
  | errAttrNoEndOfObjectNumber  \<comment> \<open>\<^verbatim>\<open>can't find end of object number\<close>\<close>
  | errAttrNoGenerationNumber  \<comment> \<open>\<^verbatim>\<open>can't find generation number\<close>\<close>
  | errAttrNoEndOfGenerationNumber  \<comment> \<open>\<^verbatim>\<open>can't find end of generation number\<close>\<close>
  | errSizeNotAvailable  \<comment> \<open>\<^verbatim>\<open>ParseXRefStreamDict: "Size" not available\<close>\<close>
  | errAtoi num_error  \<comment> \<open>the \<^verbatim>\<open>*strconv.NumError\<close> of \<^verbatim>\<open>strconv.Atoi\<close>\<close>
  | errParseFloat  \<comment> \<open>the error of \<^verbatim>\<open>strconv.ParseFloat\<close>\<close>

subsection \<open>Runes and white space\<close>

text \<open>
  \<^verbatim>\<open>for i, c := range s\<close> and \<^verbatim>\<open>strings.TrimLeftFunc\<close> read a string rune by rune, decoding
  UTF-8; a byte that starts no valid encoding is read as the rune U+FFFD of width 1. The
  decoder takes only bytes from 0x80 to 0xBF as continuation bytes, so a byte below 0x80
  and a leading byte (0xC2 and above) always start a rune of their own. The runes the
  source tests for are ASCII bytes and the white space of \<^verbatim>\<open>unicode.IsSpace\<close>, whose
  encodings start with such a byte; so "a rune with the property starts at byte i" is
  decided by the bytes from i on, and the model scans byte by byte.

  \<open>isSpaceRune s\<close> is the width in bytes of the rune at the head of \<open>s\<close> when
  \<^verbatim>\<open>unicode.IsSpace\<close> holds of it, and 0 otherwise. \<^verbatim>\<open>unicode.IsSpace\<close> holds of
  U+0009 to U+000D, U+0020, U+0085, U+00A0, U+1680, U+2000 to U+200A, U+2028, U+2029,
  U+202F, U+205F and U+3000.
\<close>

definition asciiSpace :: "char \<Rightarrow> bool" where
  "asciiSpace c = (c \<in> set [CHR 0x09, CHR 0x0A, CHR 0x0B, CHR 0x0C, CHR 0x0D, CHR 0x20])"

fun isSpaceRune :: "string \<Rightarrow> nat" where
  "isSpaceRune [] = 0"
| "isSpaceRune (c # cs) =
     (if asciiSpace c then 1
      else if c = CHR 0xC2 then
        (case cs of d # _ \<Rightarrow> if d = CHR 0x85 \<or> d = CHR 0xA0 then 2 else 0 | [] \<Rightarrow> 0)
      else if c = CHR 0xE1 then
        (case cs of d # e # _ \<Rightarrow> if d = CHR 0x9A \<and> e = CHR 0x80 then 3 else 0 | _ \<Rightarrow> 0)
      else if c = CHR 0xE2 then
        (case cs of d # e # _ \<Rightarrow>
           if d = CHR 0x80 \<and>
              e \<in> set [CHR 0x80, CHR 0x81, CHR 0x82, CHR 0x83, CHR 0x84, CHR 0x85, CHR 0x86,
                       CHR 0x87, CHR 0x88, CHR 0x89, CHR 0x8A, CHR 0xA8, CHR 0xA9, CHR 0xAF]
           then 3
           else if d = CHR 0x81 \<and> e = CHR 0x9F then 3 else 0
         | _ \<Rightarrow> 0)
      else if c = CHR 0xE3 then
        (case cs of d # e # _ \<Rightarrow> if d = CHR 0x80 \<and> e = CHR 0x80 then 3 else 0 | _ \<Rightarrow> 0)
      else 0)"

text \<open>The closure \<^verbatim>\<open>whitespace\<close> of \<^verbatim>\<open>trimLeftSpace\<close>: \<^verbatim>\<open>unicode.IsSpace(c) || c == 0x00\<close>.\<close>

definition whitespace :: "string \<Rightarrow> nat" where
  "whitespace s = (case s of [] \<Rightarrow> 0 | c # _ \<Rightarrow> if c = CHR 0x00 then 1 else isSpaceRune s)"

text \<open>
  The closure \<^verbatim>\<open>whitespaceNoEol\<close>: the runes \<^verbatim>\<open>'\t', '\v', '\f', ' ', 0x85, 0xA0, 0x00\<close>;
  the runes U+0085 and U+00A0 are the byte pairs C2 85 and C2 A0.
\<close>

definition whitespaceNoEol :: "string \<Rightarrow> nat" where
  "whitespaceNoEol s =
     (case s of [] \<Rightarrow> 0
      | c # cs \<Rightarrow>
          if c \<in> set [CHR 0x09, CHR 0x0B, CHR 0x0C, CHR 0x20, CHR 0x00] then 1
          else if c = CHR 0xC2 then
            (case cs of d # _ \<Rightarrow> if d = CHR 0x85 \<or> d = CHR 0xA0 then 2 else 0 | [] \<Rightarrow> 0)
          else 0)"

text \<open>
  \<^verbatim>\<open>strings.TrimLeftFunc(s, f)\<close>: the suffix of \<open>s\<close> from the first rune that \<open>f\<close> rejects.
  The predicate is given as above, by the width of the accepted rune at the head.
\<close>

function TrimLeftFunc :: "string \<Rightarrow> (string \<Rightarrow> nat) \<Rightarrow> string" where
  "TrimLeftFunc s f = (if s = [] \<or> f s = 0 then s else TrimLeftFunc (drop (f s) s) f)"
  by pat_completeness auto
termination
  by (relation "measure (\<lambda>(s, f). length s)") auto

declare TrimLeftFunc.simps [simp del]

subsection \<open>Lexeme scanners\<close>

text \<open>
  The index of the first byte at which a rune starts that is white space, NUL or one of
  \<open>chars\<close> (the loop shared by the two functions below).
\<close>

fun scanWhitespaceOrChar :: "string \<Rightarrow> string \<Rightarrow> nat option" where
  "scanWhitespaceOrChar [] chars = None"
| "scanWhitespaceOrChar (c # cs) chars =
     (if c \<in> set chars \<or> 0 < whitespace (c # cs) then Some 0
      else map_option Suc (scanWhitespaceOrChar cs chars))"

definition positionToNextWhitespace :: "string \<Rightarrow> int \<times> string" where
  "positionToNextWhitespace s =
     (case scanWhitespaceOrChar s [] of
        Some i \<Rightarrow> (int i, drop i s)
      | None \<Rightarrow> (0, s))"

definition positionToNextWhitespaceOrChar :: "string \<Rightarrow> string \<Rightarrow> int \<times> string" where
  "positionToNextWhitespaceOrChar s chars =
     (if length chars = 0 then positionToNextWhitespace s
      else (case scanWhitespaceOrChar s chars of
              Some i \<Rightarrow> (int i, drop i s)
            | None \<Rightarrow> (- 1, s)))"

definition positionToNextEOL :: "string \<Rightarrow> string" where
  "positionToNextEOL s = dropWhile (\<lambda>c. c \<noteq> CHR 0x0A \<and> c \<noteq> CHR 0x0D) s"

lemma length_TrimLeftFunc: "length (TrimLeftFunc s f) \<le> length s"
proof (induction s f rule: TrimLeftFunc.induct)
  case (1 s f)
  show ?case
  proof (cases "s = [] \<or> f s = 0")
    case True
    then show ?thesis by (simp add: TrimLeftFunc.simps)
  next
    case False
    then have "length (TrimLeftFunc (drop (f s) s) f) \<le> length (drop (f s) s)"
      using "1.IH" by simp
    with False show ?thesis by (simp add: TrimLeftFunc.simps [of s])
  qed
qed

lemma length_positionToNextEOL: "length (positionToNextEOL s) \<le> length s"
  by (simp add: positionToNextEOL_def length_dropWhile_le)

text \<open>
  \<^verbatim>\<open>trimLeftSpace\<close>: the body of the \<^verbatim>\<open>for\<close> loop, with the flag \<open>eol\<close> as loop state.
\<close>

function trimLeftSpace_loop :: "string \<Rightarrow> bool \<Rightarrow> bool \<Rightarrow> string \<times> bool" where
  "trimLeftSpace_loop s relaxed eol =
     (let s1 = (if relaxed then TrimLeftFunc s whitespaceNoEol else s);
          eol1 = (if relaxed \<and> length s1 \<ge> 1 \<and> (hd s1 = CHR 0x0A \<or> hd s1 = CHR 0x0D)
                  then True else eol);
          s2 = TrimLeftFunc s1 whitespace
      in if length s2 \<le> 1 \<or> hd s2 \<noteq> CHR ''%'' then (s2, eol1)
         else trimLeftSpace_loop (positionToNextEOL s2) relaxed eol1)"
  by pat_completeness auto
termination
proof (relation "measure (\<lambda>(s, relaxed, eol). length s)", goal_cases)
  case 1
  show ?case by simp
next
  case (2 s relaxed eol s1 eol1 s2)
  have a: "length s1 \<le> length s"
    using 2(1) length_TrimLeftFunc [of s whitespaceNoEol] by (simp split: if_splits)
  have b: "length s2 \<le> length s1"
    using 2(3) length_TrimLeftFunc [of s1 whitespace] by simp
  from 2(4) obtain t where t: "s2 = CHR ''%'' # t"
    by (cases s2) auto
  have "length (positionToNextEOL s2) \<le> length t"
    unfolding t positionToNextEOL_def by (simp add: length_dropWhile_le)
  with a b t show ?case by simp
qed

declare trimLeftSpace_loop.simps [simp del]

definition trimLeftSpace :: "string \<Rightarrow> bool \<Rightarrow> string \<times> bool" where
  "trimLeftSpace s relaxed = trimLeftSpace_loop s relaxed False"


text \<open>
  \<^verbatim>\<open>strings.ToUpper\<close> on a byte below 0x80. No rune outside ASCII has an upper case among
  the hexadecimal digits or the white space of \<^verbatim>\<open>hexString\<close>, so there the byte is left as
  it is and \<^verbatim>\<open>hexString\<close> rejects it.
\<close>

definition ToUpper :: "char \<Rightarrow> char" where
  "ToUpper c =
     (case map_of (zip ''abcdefghijklmnopqrstuvwxyz'' ''ABCDEFGHIJKLMNOPQRSTUVWXYZ'') c of
        Some u \<Rightarrow> u
      | None \<Rightarrow> c)"

text \<open>
  \<^verbatim>\<open>hexString\<close>: the loop over the upper-cased string, with the builder \<open>sb\<close> and the
  counter \<open>i\<close> as loop state; \<open>None\<close> is the result \<^verbatim>\<open>(nil, false)\<close>.
\<close>

fun hexString_loop :: "string \<Rightarrow> string \<Rightarrow> nat \<Rightarrow> string option" where
  "hexString_loop [] sb i = Some (if i mod 2 > 0 then sb @ ''0'' else sb)"
| "hexString_loop (c # cs) sb i =
     (if ToUpper c \<in> set [CHR '' '', CHR 0x09, CHR 0x0A, CHR 0x0C, CHR 0x0D] then
        (if i mod 2 > 0 then hexString_loop cs (sb @ ''0'') 0 else hexString_loop cs sb i)
      else if ToUpper c \<in> set ''ABCDEF1234567890'' then
        hexString_loop cs (sb @ [ToUpper c]) (i + 1)
      else None)"

definition hexString :: "string \<Rightarrow> string option" where
  "hexString s = (if length s = 0 then Some [] else hexString_loop s [] 0)"

text \<open>
  \<^verbatim>\<open>balancedParenthesesPrefix\<close>: the loop over the bytes from index \<open>i\<close> on, with the
  depth \<open>j\<close> and the flag \<open>escaped\<close> as loop state.
\<close>

fun balancedParenthesesPrefix_loop :: "string \<Rightarrow> nat \<Rightarrow> int \<Rightarrow> bool \<Rightarrow> int" where
  "balancedParenthesesPrefix_loop [] i j escaped = - 1"
| "balancedParenthesesPrefix_loop (c # cs) i j escaped =
     (if \<not> escaped \<and> c = CHR 0x5C then balancedParenthesesPrefix_loop cs (i + 1) j True
      else if escaped then balancedParenthesesPrefix_loop cs (i + 1) j False
      else
        let j1 = (if c = CHR ''('' then j + 1 else j);
            j2 = (if c = CHR '')'' then j1 - 1 else j1)
        in if j2 = 0 then int i else balancedParenthesesPrefix_loop cs (i + 1) j2 False)"

definition balancedParenthesesPrefix :: "string \<Rightarrow> int" where
  "balancedParenthesesPrefix s = balancedParenthesesPrefix_loop s 0 0 False"

definition forwardParseBuf :: "string \<Rightarrow> nat \<Rightarrow> string" where
  "forwardParseBuf buf pos = (if pos < length buf then drop pos buf else [])"

definition delimiter :: "char \<Rightarrow> bool" where
  "delimiter b = (b \<in> set ''<>[]()/'')"

subsection \<open>The library functions the parser calls\<close>

text \<open>
  \<^verbatim>\<open>strconv.Atoi\<close> on a 64-bit platform: an optional sign, then decimal digits. The
  digits are read left to right into an unsigned 64-bit number; a byte that is no digit is
  a syntax error, and a number that leaves the unsigned range is a range error at the
  digit where it does so. A number that read as unsigned but does not fit \<^verbatim>\<open>int64\<close> is a
  range error.
\<close>

definition digitVal :: "char \<Rightarrow> int option" where
  "digitVal c = map_of (zip ''0123456789'' [0, 1, 2, 3, 4, 5, 6, 7, 8, 9]) c"

fun ParseUint_loop :: "string \<Rightarrow> int \<Rightarrow> num_error + int" where
  "ParseUint_loop [] n = Inr n"
| "ParseUint_loop (c # cs) n =
     (case digitVal c of
        None \<Rightarrow> Inl ErrSyntax
      | Some d \<Rightarrow>
          if n \<ge> (2 ^ 64 - 1) div 10 + 1 then Inl ErrRange
          else if n * 10 + d > 2 ^ 64 - 1 then Inl ErrRange
          else ParseUint_loop cs (n * 10 + d))"

definition Atoi :: "string \<Rightarrow> num_error + int" where
  "Atoi s =
     (case s of
        [] \<Rightarrow> Inl ErrSyntax
      | c # cs \<Rightarrow>
          let neg = (c = CHR ''-'');
              ds = (if c = CHR ''+'' \<or> c = CHR ''-'' then cs else s)
          in if ds = [] then Inl ErrSyntax
             else (case ParseUint_loop ds 0 of
                     Inl e \<Rightarrow> Inl e
                   | Inr un \<Rightarrow>
                       (if \<not> neg \<and> un \<ge> 2 ^ 63 then Inl ErrRange
                        else if neg \<and> un > 2 ^ 63 then Inl ErrRange
                        else Inr (if neg then - un else un))))"

text \<open>\<^verbatim>\<open>strings.Index(s, substr)\<close>: the index of the first occurrence, \<open>None\<close> for -1.\<close>

fun Index :: "string \<Rightarrow> string \<Rightarrow> nat option" where
  "Index [] substr = (if substr = [] then Some 0 else None)"
| "Index (c # cs) substr =
     (if prefix substr (c # cs) then Some 0 else map_option Suc (Index cs substr))"

text \<open>
  \<^verbatim>\<open>strings.TrimSpace\<close>: leading and trailing runes of \<^verbatim>\<open>unicode.IsSpace\<close> are cut off.
  \<open>lastSpaceRune s\<close> is the width of the rune at the end of \<open>s\<close> when it is such a rune.
\<close>

definition lastSpaceRune :: "string \<Rightarrow> nat" where
  "lastSpaceRune s =
     (let n = length s
      in if 1 \<le> n \<and> isSpaceRune (drop (n - 1) s) = 1 then 1
         else if 2 \<le> n \<and> isSpaceRune (drop (n - 2) s) = 2 then 2
         else if 3 \<le> n \<and> isSpaceRune (drop (n - 3) s) = 3 then 3
         else 0)"

function TrimRightSpace :: "string \<Rightarrow> string" where
  "TrimRightSpace s =
     (if lastSpaceRune s = 0 then s else TrimRightSpace (take (length s - lastSpaceRune s) s))"
  by pat_completeness auto
termination
  by (relation "measure length") (auto simp: lastSpaceRune_def Let_def split: if_splits)

declare TrimRightSpace.simps [simp del]

definition TrimSpace :: "string \<Rightarrow> string" where
  "TrimSpace s = TrimRightSpace (TrimLeftFunc s isSpaceRune)"

text \<open>\<^verbatim>\<open>hex.DecodeString\<close> accepts two bytes when both are hexadecimal digits.\<close>

definition hexDigit :: "char \<Rightarrow> bool" where
  "hexDigit c = (c \<in> set ''0123456789abcdefABCDEF'')"

subsection \<open>Objects\<close>

text \<open>
  \<^verbatim>\<open>types.Object\<close>. The \<^verbatim>\<open>nil\<close> object is \<open>Null\<close>. The payload of a \<open>Float\<close> is a value of
  the type \<open>'f\<close>, which stands for \<^verbatim>\<open>float64\<close>. A \<^verbatim>\<open>types.Dict\<close> is a list of entries with
  distinct keys, in the order of their first insertion.
\<close>

datatype 'f Object =
    Null
  | Boolean bool
  | Integer int
  | Float 'f
  | Name string
  | StringLiteral string
  | HexLiteral string
  | Array "'f Object list"
  | Dict "(string \<times> 'f Object) list"
  | IndirectRef int int

type_synonym 'f Dict = "(string \<times> 'f Object) list"

definition NewDict :: "'f Dict" where
  "NewDict = []"

text \<open>
  Modelled from the spec: \<^verbatim>\<open>Dict.Insert\<close> of the package \<^verbatim>\<open>types\<close>, which is not among the
  sources. The specification has a later repeat of a key accepted, overwriting the entry
  (the last write wins), and the dictionary keeping the order of the first occurrences.
  The boolean result is read off the call in \<^verbatim>\<open>processDictKeys\<close>, which takes \<^verbatim>\<open>false\<close>
  for a duplicate key: it is \<^verbatim>\<open>true\<close> when the key was not in the dictionary.
\<close>

definition Insert :: "'f Dict \<Rightarrow> string \<Rightarrow> 'f Object \<Rightarrow> 'f Dict \<times> bool" where
  "Insert d k v = (AList.update k v d, map_of d k = None)"


subsection \<open>The object attributes\<close>

definition ParseObjectAttributes :: "string \<Rightarrow> (error + int \<times> int) \<times> string" where
  "ParseObjectAttributes line =
     (if length line = 0 then (Inl errAttrBufNotAvailable, line)
      else
        (case Index line ''obj'' of
           None \<Rightarrow> (Inl errAttrNoObj, line)
         | Some i \<Rightarrow>
             let remainder = drop (i + length ''obj'') line;
                 l = take i line;
                 l = fst (trimLeftSpace l False)
             in if length l = 0 then (Inl errAttrNoObjectNumber, line)
                else
                  let i = fst (positionToNextWhitespaceOrChar l ''%'')
                  in if i \<le> 0 then (Inl errAttrNoEndOfObjectNumber, line)
                     else
                       (case Atoi (take (nat i) l) of
                          Inl e \<Rightarrow> (Inl (errAtoi e), line)
                        | Inr objNr \<Rightarrow>
                            let l = drop (nat i) l;
                                l = fst (trimLeftSpace l False)
                            in if length l = 0 then (Inl errAttrNoGenerationNumber, line)
                               else
                                 let i = fst (positionToNextWhitespaceOrChar l ''%'')
                                 in if i \<le> 0 then (Inl errAttrNoEndOfGenerationNumber, line)
                                    else
                                      (case Atoi (take (nat i) l) of
                                         Inl e \<Rightarrow> (Inl (errAtoi e), line)
                                       | Inr genNr \<Rightarrow> (Inr (objNr, genNr), remainder)))))"

subsection \<open>The primitive parsers\<close>

definition parseStringLiteral :: "string \<Rightarrow> (error + 'f Object) \<times> string" where
  "parseStringLiteral line =
     (if length line = 0 then (Inl errBufNotAvailable, line)
      else if length line < 2 \<or> \<not> prefix ''('' line then (Inl errStringLiteralCorrupt, line)
      else
        let i = balancedParenthesesPrefix line
        in if i < 0 then (Inl errStringLiteralCorrupt, line)
           else
             let balParStr = drop 1 (take (nat i) line)
             in (Inr (StringLiteral balParStr), forwardParseBuf (drop (nat i) line) 1))"

definition parseHexLiteral :: "string \<Rightarrow> (error + 'f Object) \<times> string" where
  "parseHexLiteral line =
     (if length line = 0 then (Inl errBufNotAvailable, line)
      else if length line < 2 \<or> \<not> prefix ''<'' line then (Inl errHexLiteralCorrupt, line)
      else
        let l = forwardParseBuf line 1
        in (case Index l ''>'' of
              None \<Rightarrow> (Inl errHexLiteralNotTerminated, line)
            | Some eov \<Rightarrow>
                (case hexString (TrimSpace (take eov l)) of
                   None \<Rightarrow> (Inl errHexLiteralCorrupt, line)
                 | Some hexStr \<Rightarrow> (Inr (HexLiteral hexStr), forwardParseBuf (drop eov l) 1))))"

text \<open>\<^verbatim>\<open>validateNameHexSequence\<close>: \<open>True\<close> is the result \<^verbatim>\<open>nil\<close>, \<open>False\<close> is
  \<^verbatim>\<open>errNameObjectCorrupt\<close>.\<close>

fun validateNameHexSequence :: "string \<Rightarrow> bool" where
  "validateNameHexSequence [] = True"
| "validateNameHexSequence (c # cs) =
     (if c \<noteq> CHR ''#'' then validateNameHexSequence cs
      else
        (case cs of
           a # b # rest \<Rightarrow> if hexDigit a \<and> hexDigit b then validateNameHexSequence rest else False
         | _ \<Rightarrow> False))"

definition parseName :: "string \<Rightarrow> (error + string) \<times> string" where
  "parseName line =
     (if length line = 0 then (Inl errBufNotAvailable, line)
      else if length line < 2 \<or> \<not> prefix ''/'' line then (Inl errNameObjectCorrupt, line)
      else
        let l = forwardParseBuf line 1;
            eok = fst (positionToNextWhitespaceOrChar l ''/<>()[]%'');
            line1 = (if eok < 0 then [] else drop (nat eok) l);
            l = (if eok < 0 then l else take (nat eok) l)
        in if \<not> validateNameHexSequence l then (Inl errNameObjectCorrupt, line1)
           else (Inr l, line1))"

definition noBuf :: "string \<Rightarrow> bool" where
  "noBuf l = (length l = 0)"

text \<open>
  \<^verbatim>\<open>startParseNumericOrIndRef\<close>. The loop that skips the zeros after \<^verbatim>\<open>0.\<close> ends at
  the index \<open>2 + length (takeWhile (\<lambda>c. c = CHR ''0'') (drop 2 str))\<close>.
\<close>

definition startParseNumericOrIndRef :: "string \<Rightarrow> string \<times> string \<times> int" where
  "startParseNumericOrIndRef l =
     (let i1 = fst (positionToNextWhitespaceOrChar l ''/<([]>%'');
          l1 = (if i1 > 0 then drop (nat i1) l else drop (length l) l);
          str = (if i1 > 0 then take (nat i1) l else l);
          str =
            (if length str > 1 \<and> str ! 0 = CHR ''0'' then
               (if str ! 1 = CHR ''+'' \<or> str ! 1 = CHR ''-'' then drop 1 str
                else if str ! 1 = CHR ''.'' then
                  (let i = 2 + length (takeWhile (\<lambda>c. c = CHR ''0'') (drop 2 str))
                   in if length str > i \<and> (str ! i = CHR ''+'' \<or> str ! i = CHR ''-'')
                      then drop i str else str)
                else str)
             else str)
      in (str, l1, i1))"

text \<open>
  \<^verbatim>\<open>parseIndRef\<close>. Past the first check \<^verbatim>\<open>err\<close> is \<^verbatim>\<open>nil\<close>, so \<^verbatim>\<open>return nil, err\<close> returns
  the \<^verbatim>\<open>nil\<close> object and no error, with \<^verbatim>\<open>*line\<close> as it was: the argument \<open>line\<close>.
\<close>

definition parseIndRef ::
  "string \<Rightarrow> string \<Rightarrow> string \<Rightarrow> string \<Rightarrow> int \<Rightarrow> int \<Rightarrow> bool \<Rightarrow> (error + 'f Object) \<times> string" where
  "parseIndRef s l l1 line i i2 rangeErr =
     (case Atoi s of
        Inl err \<Rightarrow> (Inr (Integer i), l1)
      | Inr g \<Rightarrow>
          let l = drop (nat i2) l;
              l = fst (trimLeftSpace l False)
          in if length l = 0 then
               (if rangeErr then (Inr Null, line) else (Inr (Integer i), l1))
             else if hd l = CHR ''R'' then
               (if rangeErr then (Inr Null, forwardParseBuf l 1)
                else (Inr (IndirectRef i g), forwardParseBuf l 1))
             else if rangeErr then (Inr Null, line)
             else (Inr (Integer i), l1))"

text \<open>
  \<^verbatim>\<open>parseFloat\<close>: \<^verbatim>\<open>strconv.ParseFloat\<close> is the parameter \<open>pf\<close>, \<open>None\<close> where it fails.
\<close>

definition parseFloat :: "(string \<Rightarrow> 'f option) \<Rightarrow> string \<Rightarrow> error + 'f Object" where
  "parseFloat pf s = (case pf s of None \<Rightarrow> Inl errParseFloat | Some f \<Rightarrow> Inr (Float f))"

text \<open>
  \<^verbatim>\<open>parseNumericOrIndRef\<close>. \<open>numericOrIndRef_int\<close> is the part after "We have an Int!",
  with the values of \<^verbatim>\<open>i\<close> and \<^verbatim>\<open>rangeErr\<close>; there \<^verbatim>\<open>err\<close> is the range error of \<^verbatim>\<open>Atoi\<close>
  when \<^verbatim>\<open>rangeErr\<close> is set. The index \<^verbatim>\<open>l[i1]\<close> is read only when \<^verbatim>\<open>i1 > 0\<close>, where it is
  within the string.
\<close>

definition numericOrIndRef_int ::
  "string \<Rightarrow> string \<Rightarrow> int \<Rightarrow> int \<Rightarrow> bool \<Rightarrow> (error + 'f Object) \<times> string" where
  "numericOrIndRef_int line l1 i1 i rangeErr =
     (if i1 \<le> 0 \<or> delimiter (line ! nat i1) then
        (if rangeErr then (Inl (errAtoi ErrRange), line) else (Inr (Integer i), l1))
      else
        let l = drop (nat i1) line;
            l = fst (trimLeftSpace l False)
        in if length l = 0 then
             (if rangeErr then (Inl (errAtoi ErrRange), line) else (Inr (Integer i), l1))
           else
             let i2 = fst (positionToNextWhitespaceOrChar l ''/<([]>'')
             in if i2 \<le> 0 \<or> delimiter (l ! nat i2) then
                  (if rangeErr then (Inl (errAtoi ErrRange), line) else (Inr (Integer i), l1))
                else
                  let s = (if i2 > 0 then take (nat i2) l else l)
                  in parseIndRef s l l1 line i i2 rangeErr)"

definition parseNumericOrIndRef ::
  "(string \<Rightarrow> 'f option) \<Rightarrow> string \<Rightarrow> (error + 'f Object) \<times> string" where
  "parseNumericOrIndRef pf line =
     (if noBuf line then (Inl errBufNotAvailable, line)
      else
        (case startParseNumericOrIndRef line of
           (s, l1, i1) \<Rightarrow>
             (case Atoi s of
                Inl err \<Rightarrow>
                  if err \<noteq> ErrRange then (parseFloat pf s, l1)
                  else numericOrIndRef_int line l1 i1 0 True
              | Inr i \<Rightarrow> numericOrIndRef_int line l1 i1 i False)))"

definition parseBooleanOrNull :: "string \<Rightarrow> 'f Object \<times> string \<times> bool" where
  "parseBooleanOrNull l =
     (if prefix ''null'' l then (Null, ''null'', True)
      else if prefix ''true'' l then (Boolean True, ''true'', True)
      else if prefix ''false'' l then (Boolean False, ''false'', True)
      else (Null, [], False))"


subsection \<open>The composite parsers and the dispatcher\<close>

text \<open>
  \<^verbatim>\<open>ParseObject\<close>, \<^verbatim>\<open>parseArray\<close>, \<^verbatim>\<open>parseHexLiteralOrDict\<close>, \<^verbatim>\<open>parseDict\<close> and
  \<^verbatim>\<open>processDictKeys\<close> call each other, and the loops of \<^verbatim>\<open>parseArray\<close> and
  \<^verbatim>\<open>processDictKeys\<close> run as long as the input makes them. The model counts both down with
  a number \<open>n\<close>: the nesting of calls of \<^verbatim>\<open>ParseObject\<close> and the iterations of a loop. The
  result \<open>None\<close> says that \<open>n\<close> did not suffice; it is no result of the source. The
  functions below \<^verbatim>\<open>ParseObject\<close> take the dispatcher they call as the argument \<open>po\<close>.
\<close>

type_synonym 'f dispatcher = "string \<Rightarrow> ((error + 'f Object) \<times> string) option"

text \<open>The loop of \<^verbatim>\<open>parseArray\<close>, with the array \<open>a\<close> and the local \<open>l\<close> as loop state.\<close>

fun parseArray_loop ::
  "'f dispatcher \<Rightarrow> nat \<Rightarrow> 'f Object list \<Rightarrow> string \<Rightarrow> (error + 'f Object list \<times> string) option" where
  "parseArray_loop po 0 a l = None"
| "parseArray_loop po (Suc n) a l =
     (if prefix '']'' l then Some (Inr (a, l))
      else
        (case po l of
           None \<Rightarrow> None
         | Some (Inl err, _) \<Rightarrow> Some (Inl err)
         | Some (Inr obj, l) \<Rightarrow>
             let a = a @ [obj]
             in if length l = 0 then Some (Inl errArrayNotTerminated)
                else
                  let l = fst (trimLeftSpace l False)
                  in if length l = 0 then Some (Inl errArrayNotTerminated)
                     else parseArray_loop po n a l))"

definition parseArray ::
  "'f dispatcher \<Rightarrow> nat \<Rightarrow> string \<Rightarrow> ((error + 'f Object list) \<times> string) option" where
  "parseArray po n line =
     (if length line = 0 then Some (Inl errNoArray, line)
      else if \<not> prefix ''['' line then Some (Inl errArrayCorrupt, line)
      else if length line = 1 then Some (Inl errArrayNotTerminated, line)
      else
        let l = forwardParseBuf line 1;
            l = fst (trimLeftSpace l False)
        in if length l = 0 then Some (Inl errArrayNotTerminated, line)
           else
             (case parseArray_loop po n [] l of
                None \<Rightarrow> None
              | Some (Inl err) \<Rightarrow> Some (Inl err, line)
              | Some (Inr (a, l)) \<Rightarrow> Some (Inr a, forwardParseBuf l 1)))"

text \<open>
  The loop of \<^verbatim>\<open>processDictKeys\<close>, with the dictionary \<open>d\<close> and the local \<open>l\<close> as loop
  state. In the branch for a missing value the result of \<^verbatim>\<open>Insert\<close> is tested; in the
  other the result is dropped.
\<close>

fun processDictKeys_loop ::
  "'f dispatcher \<Rightarrow> nat \<Rightarrow> bool \<Rightarrow> 'f Dict \<Rightarrow> string \<Rightarrow> (error + 'f Dict \<times> string) option" where
  "processDictKeys_loop po 0 relaxed d l = None"
| "processDictKeys_loop po (Suc n) relaxed d l =
     (if prefix ''>>'' l then Some (Inr (d, l))
      else
        (case parseName l of
           (Inl err, _) \<Rightarrow> Some (Inl err)
         | (Inr key, l) \<Rightarrow>
             (case trimLeftSpace l relaxed of
                (l, eol) \<Rightarrow>
                  if length l = 0 then Some (Inl errDictionaryNotTerminated)
                  else if eol then
                    (case Insert d key (StringLiteral []) of
                       (d, ok) \<Rightarrow>
                         if \<not> ok then Some (Inl errDictionaryDuplicateKey)
                         else processDictKeys_loop po n relaxed d l)
                  else
                    (case po l of
                       None \<Rightarrow> None
                     | Some (Inl err, _) \<Rightarrow> Some (Inl err)
                     | Some (Inr obj, l) \<Rightarrow>
                         let d = (if obj \<noteq> Null then fst (Insert d key obj) else d)
                         in if length l = 0 then Some (Inl errDictionaryNotTerminated)
                            else
                              let l = fst (trimLeftSpace l False)
                              in if length l = 0 then Some (Inl errDictionaryNotTerminated)
                                 else processDictKeys_loop po n relaxed d l))))"

definition processDictKeys ::
  "'f dispatcher \<Rightarrow> nat \<Rightarrow> string \<Rightarrow> bool \<Rightarrow> ((error + 'f Dict) \<times> string) option" where
  "processDictKeys po n line relaxed =
     (case processDictKeys_loop po n relaxed NewDict line of
        None \<Rightarrow> None
      | Some (Inl err) \<Rightarrow> Some (Inl err, line)
      | Some (Inr (d, l)) \<Rightarrow> Some (Inr d, l))"

definition parseDict ::
  "'f dispatcher \<Rightarrow> nat \<Rightarrow> string \<Rightarrow> bool \<Rightarrow> ((error + 'f Dict) \<times> string) option" where
  "parseDict po n line relaxed =
     (if length line = 0 then Some (Inl errNoDictionary, line)
      else if length line < 4 \<or> \<not> prefix ''<<'' line then Some (Inl errDictionaryCorrupt, line)
      else
        let l = forwardParseBuf line 2;
            l = fst (trimLeftSpace l False)
        in if length l = 0 then Some (Inl errDictionaryNotTerminated, line)
           else
             (case processDictKeys po n l relaxed of
                None \<Rightarrow> None
              | Some (Inl err, _) \<Rightarrow> Some (Inl err, line)
              | Some (Inr d, l) \<Rightarrow> Some (Inr d, forwardParseBuf l 2)))"

text \<open>
  \<^verbatim>\<open>parseHexLiteralOrDict\<close> hands its own pointer to \<^verbatim>\<open>parseDict\<close>: the second call reads
  what the first call left in \<^verbatim>\<open>*l\<close>.
\<close>

definition parseHexLiteralOrDict ::
  "'f dispatcher \<Rightarrow> nat \<Rightarrow> string \<Rightarrow> ((error + 'f Object) \<times> string) option" where
  "parseHexLiteralOrDict po n l =
     (if length l < 2 then Some (Inl errBufNotAvailable, l)
      else if l ! 1 = CHR ''<'' then
        (case parseDict po n l False of
           None \<Rightarrow> None
         | Some (Inr d, l) \<Rightarrow> Some (Inr (Dict d), l)
         | Some (Inl err, l) \<Rightarrow>
             (case parseDict po n l True of
                None \<Rightarrow> None
              | Some (Inl err, l) \<Rightarrow> Some (Inl err, l)
              | Some (Inr d, l) \<Rightarrow> Some (Inr (Dict d), l)))
      else
        (case parseHexLiteral l of
           (Inl err, l) \<Rightarrow> Some (Inl err, l)
         | (Inr val, l) \<Rightarrow> Some (Inr val, l)))"

text \<open>
  The body of \<^verbatim>\<open>ParseObject\<close>. The parsers work on the local \<^verbatim>\<open>l\<close>; \<^verbatim>\<open>*line\<close> is
  assigned only at the end, so a failure returns \<open>line\<close> as it came.
\<close>

definition ParseObject_body ::
  "(string \<Rightarrow> 'f option) \<Rightarrow> 'f dispatcher \<Rightarrow> nat \<Rightarrow> string \<Rightarrow> ((error + 'f Object) \<times> string) option" where
  "ParseObject_body pf po n line =
     (if noBuf line then Some (Inl errBufNotAvailable, line)
      else
        let l = fst (trimLeftSpace line False)
        in if length l = 0 then Some (Inl errBufNotAvailable, line)
           else if hd l = CHR ''['' then
             (case parseArray po n l of
                None \<Rightarrow> None
              | Some (Inl err, _) \<Rightarrow> Some (Inl err, line)
              | Some (Inr a, l) \<Rightarrow> Some (Inr (Array a), l))
           else if hd l = CHR ''/'' then
             (case parseName l of
                (Inl err, _) \<Rightarrow> Some (Inl err, line)
              | (Inr nameObj, l) \<Rightarrow> Some (Inr (Name nameObj), l))
           else if hd l = CHR ''<'' then
             (case parseHexLiteralOrDict po n l of
                None \<Rightarrow> None
              | Some (Inl err, _) \<Rightarrow> Some (Inl err, line)
              | Some (Inr val, l) \<Rightarrow> Some (Inr val, l))
           else if hd l = CHR ''('' then
             (case parseStringLiteral l of
                (Inl err, _) \<Rightarrow> Some (Inl err, line)
              | (Inr val, l) \<Rightarrow> Some (Inr val, l))
           else
             (case parseBooleanOrNull l of
                (val, valStr, ok) \<Rightarrow>
                  if ok then Some (Inr val, forwardParseBuf l (length valStr))
                  else
                    (case parseNumericOrIndRef pf l of
                       (Inl err, _) \<Rightarrow> Some (Inl err, line)
                     | (Inr val, l) \<Rightarrow> Some (Inr val, l))))"

fun ParseObject :: "(string \<Rightarrow> 'f option) \<Rightarrow> nat \<Rightarrow> 'f dispatcher" where
  "ParseObject pf 0 line = None"
| "ParseObject pf (Suc n) line = ParseObject_body pf (ParseObject pf n) n line"

subsection \<open>The descriptor of a cross-reference stream\<close>

text \<open>
  A \<^verbatim>\<open>types.StreamDict\<close> is read through the accessors \<^verbatim>\<open>Size\<close>, \<^verbatim>\<open>W\<close>, \<^verbatim>\<open>Index\<close> and
  \<^verbatim>\<open>Prev\<close> of the package \<^verbatim>\<open>types\<close>; the record holds what they return, \<open>None\<close> for \<^verbatim>\<open>nil\<close>.
\<close>

record 'f StreamDict =
  Size :: "int option"
  W :: "'f Object list option"
  Index_entry :: "'f Object list option"
  Prev :: "int option"

record 'f XRefStreamDict =
  xsd_StreamDict :: "'f StreamDict"
  xsd_Size :: int
  xsd_Objects :: "int list"
  xsd_W :: "int list"
  xsd_PreviousOffset :: "int option"

text \<open>The sum of two values of the type \<^verbatim>\<open>int\<close> of Go, of 64 bits.\<close>

definition add_int64 :: "int \<Rightarrow> int \<Rightarrow> int" where
  "add_int64 a b = (a + b + 2 ^ 63) mod 2 ^ 64 - 2 ^ 63"

definition createXRefStreamDict :: "'f StreamDict \<Rightarrow> int list \<Rightarrow> error + 'f XRefStreamDict" where
  "createXRefStreamDict sd objs =
     (case W sd of
        None \<Rightarrow> Inl errXrefStreamMissingW
      | Some a \<Rightarrow>
          if length a \<noteq> 3 then Inl errXrefStreamCorruptW
          else
            (case a ! 0 of
               Integer i1 \<Rightarrow>
                 if i1 < 0 then Inl errXrefStreamCorruptW
                 else
                   (case a ! 1 of
                      Integer i2 \<Rightarrow>
                        if i2 < 0 then Inl errXrefStreamCorruptW
                        else
                          (case a ! 2 of
                             Integer i3 \<Rightarrow>
                               if i3 < 0 then Inl errXrefStreamCorruptW
                               else
                                 Inr \<lparr>xsd_StreamDict = sd, xsd_Size = the (Size sd),
                                      xsd_Objects = objs, xsd_W = [i1, i2, i3],
                                      xsd_PreviousOffset = Prev sd\<rparr>
                           | _ \<Rightarrow> Inl errXrefStreamCorruptW)
                    | _ \<Rightarrow> Inl errXrefStreamCorruptW)
             | _ \<Rightarrow> Inl errXrefStreamCorruptW))"

text \<open>
  The loop over the pairs of \<^verbatim>\<open>Index\<close> in \<^verbatim>\<open>ParseXRefStreamDict\<close>, for the values of \<^verbatim>\<open>i\<close>
  still to come, with \<open>objs\<close> as loop state. The indices \<^verbatim>\<open>i*2\<close> and \<^verbatim>\<open>i*2+1\<close> are below
  the length of the array, as \<^verbatim>\<open>i < len(indArr)/2\<close>.
\<close>

primrec indexObjects :: "'f Object list \<Rightarrow> nat list \<Rightarrow> int list \<Rightarrow> error + int list" where
  "indexObjects indArr [] objs = Inr objs"
| "indexObjects indArr (i # rest) objs =
     (case indArr ! (i * 2) of
        Integer startObj \<Rightarrow>
          (case indArr ! (i * 2 + 1) of
             Integer count \<Rightarrow>
               indexObjects indArr rest
                 (objs @ map (\<lambda>j. add_int64 startObj (int j)) [0 ..< nat count])
           | _ \<Rightarrow> Inl errXrefStreamCorruptIndex)
      | _ \<Rightarrow> Inl errXrefStreamCorruptIndex)"

definition ParseXRefStreamDict :: "'f StreamDict \<Rightarrow> error + 'f XRefStreamDict" where
  "ParseXRefStreamDict sd =
     (case Size sd of
        None \<Rightarrow> Inl errSizeNotAvailable
      | Some sz \<Rightarrow>
          (case Index_entry sd of
             Some indArr \<Rightarrow>
               if length indArr mod 2 > 1 then Inl errXrefStreamCorruptIndex
               else
                 (case indexObjects indArr [0 ..< length indArr div 2] [] of
                    Inl err \<Rightarrow> Inl err
                  | Inr objs \<Rightarrow> createXRefStreamDict sd objs)
           | None \<Rightarrow> createXRefStreamDict sd (map int [0 ..< nat sz])))"


subsection \<open>Notions used in the statements\<close>

text \<open>
  A byte at which no white-space rune starts: not NUL, no ASCII white space and none of
  the bytes that lead the encoding of a white-space rune.
\<close>

definition regularByte :: "char \<Rightarrow> bool" where
  "regularByte c =
     (c \<noteq> CHR 0x00 \<and> \<not> asciiSpace c \<and> c \<notin> set [CHR 0xC2, CHR 0xE1, CHR 0xE2, CHR 0xE3])"

text \<open>
  The result of \<^verbatim>\<open>hexString\<close> in the words of the amended claim C4: the runs of digits
  between the white space of \<^verbatim>\<open>hexString\<close> (space, tab, LF, FF, CR), in upper case, each
  run of odd length padded with one \<^verbatim>\<open>0\<close>, one after the other.
\<close>

definition hexWhite :: "char \<Rightarrow> bool" where
  "hexWhite c = (c \<in> set [CHR '' '', CHR 0x09, CHR 0x0A, CHR 0x0C, CHR 0x0D])"

fun digitRuns :: "string \<Rightarrow> string \<Rightarrow> string list" where
  "digitRuns [] cur = [cur]"
| "digitRuns (c # cs) cur =
     (if hexWhite c then cur # digitRuns cs [] else digitRuns cs (cur @ [c]))"

definition padEven :: "string \<Rightarrow> string" where
  "padEven r = (if odd (length r) then r @ ''0'' else r)"

definition normalizeHex_runs :: "string \<Rightarrow> string" where
  "normalizeHex_runs s = concat (map padEven (digitRuns (map ToUpper s) []))"

text \<open>
  The bytes that follow the leading byte in the encoding of a white-space rune.
\<close>

definition contByte :: "char \<Rightarrow> bool" where
  "contByte c = (c \<in> set [CHR 0x80, CHR 0x81, CHR 0x82, CHR 0x83, CHR 0x84, CHR 0x85, CHR 0x86,
                       CHR 0x87, CHR 0x88, CHR 0x89, CHR 0x8A, CHR 0xA8, CHR 0xA9, CHR 0xAF,
                       CHR 0xA0, CHR 0x9A, CHR 0x9F])"

section \<open>Properties\<close>

subsection \<open>Scanning\<close>

lemma whitespace_regularByte: "regularByte c \<Longrightarrow> whitespace (c # cs) = 0"
  by (simp add: regularByte_def whitespace_def)

lemma scan_regular_Some:
  "\<forall>c\<in>set tok. regularByte c \<and> c \<notin> set chars \<Longrightarrow>
   scanWhitespaceOrChar rest chars = Some i \<Longrightarrow>
   scanWhitespaceOrChar (tok @ rest) chars = Some (length tok + i)"
  by (induction tok) (auto simp: whitespace_regularByte)

lemma scan_regular_None:
  "\<forall>c\<in>set tok. regularByte c \<and> c \<notin> set chars \<Longrightarrow>
   scanWhitespaceOrChar rest chars = None \<Longrightarrow>
   scanWhitespaceOrChar (tok @ rest) chars = None"
  by (induction tok) (auto simp: whitespace_regularByte)

subsection \<open>The cross-reference stream descriptor\<close>

text \<open>
  Claim C1 has an \<^verbatim>\<open>Index\<close> array of odd length rejected with
  \<^verbatim>\<open>errXrefStreamCorruptIndex\<close>. The guard of the source is \<^verbatim>\<open>len(indArr)%2 > 1\<close>, which
  never holds: with the well-formed \<^verbatim>\<open>W\<close> array \<^verbatim>\<open>[1 2 1]\<close> and the \<^verbatim>\<open>Index\<close> array
  \<^verbatim>\<open>[0 1 5]\<close> of three integers the descriptor is built, from the pair \<^verbatim>\<open>(0, 1)\<close> alone, and
  the last entry is dropped.
\<close>

theorem C1_odd_Index_accepted:
  "ParseXRefStreamDict
     \<lparr>Size = Some 3, W = Some [Integer 1, Integer 2, Integer 1],
      Index_entry = Some [Integer 0, Integer 1, Integer 5], Prev = None\<rparr>
   = Inr \<lparr>xsd_StreamDict =
            \<lparr>Size = Some 3, W = Some [Integer 1, Integer 2, Integer 1],
             Index_entry = Some [Integer 0, Integer 1, Integer 5], Prev = None\<rparr>,
          xsd_Size = 3, xsd_Objects = [0], xsd_W = [1, 2, 1], xsd_PreviousOffset = None\<rparr>"
  by (simp add: ParseXRefStreamDict_def createXRefStreamDict_def add_int64_def)

subsection \<open>Names\<close>

lemma validate_no_hash: "CHR ''#'' \<notin> set s \<Longrightarrow> validateNameHexSequence s"
  by (induction s) auto

lemma parseName_end_of_buffer:
  assumes "name \<noteq> []" "scanWhitespaceOrChar name ''/<>()[]%'' = None"
  shows "parseName (CHR ''/'' # name) =
     (if validateNameHexSequence name then (Inr name, []) else (Inl errNameObjectCorrupt, []))"
proof -
  from assms(1) have "length name \<ge> 1" by (cases name) auto
  then show ?thesis
    using assms
    by (simp add: parseName_def forwardParseBuf_def positionToNextWhitespaceOrChar_def Let_def)
qed

lemma scan_regular_name:
  assumes "\<forall>c\<in>set name. regularByte c \<and> c \<notin> set chars"
  shows "scanWhitespaceOrChar name chars = None"
proof -
  have "scanWhitespaceOrChar (name @ []) chars = None"
    by (rule scan_regular_None) (use assms in auto)
  then show ?thesis by simp
qed

lemma trimLeftSpace_slash: "trimLeftSpace ''/'' False = (''/'', False)"
  by (simp add: trimLeftSpace_def trimLeftSpace_loop.simps TrimLeftFunc.simps whitespace_def
      asciiSpace_def)

text \<open>
  Claim C10, as stated, fails at the empty buffer: its length is below 2, and \<^verbatim>\<open>parseName\<close>
  fails with \<^verbatim>\<open>errBufNotAvailable\<close>, not with \<^verbatim>\<open>errNameObjectCorrupt\<close>.
\<close>

theorem C10_empty_buffer_counterexample:
  "length ([] :: string) < 2 \<and> fst (parseName []) = Inl errBufNotAvailable
   \<and> fst (parseName []) \<noteq> Inl errNameObjectCorrupt"
  by (simp add: parseName_def)

text \<open>
  Claim C10, amended: on every buffer of length 1, the single byte \<^verbatim>\<open>/\<close> among them,
  \<^verbatim>\<open>parseName\<close> fails with \<^verbatim>\<open>errNameObjectCorrupt\<close> and leaves the buffer as it is, and so
  does \<^verbatim>\<open>ParseObject\<close> on \<^verbatim>\<open>/\<close>; on the empty buffer \<^verbatim>\<open>parseName\<close> fails with
  \<^verbatim>\<open>errBufNotAvailable\<close>; a name of at least one byte that runs to the end of the buffer
  (the scan for white space, NUL, a delimiter or \<^verbatim>\<open>%\<close> finds nothing) is accepted, with the
  empty cursor, when every \<^verbatim>\<open>#\<close> in it is followed by two hexadecimal digits, and fails
  with \<^verbatim>\<open>errNameObjectCorrupt\<close> otherwise.
\<close>

theorem C10_parseName_short_buffer:
  "(length line = 1 \<longrightarrow> parseName line = (Inl errNameObjectCorrupt, line))
   \<and> ParseObject pf (Suc n) ''/'' = Some (Inl errNameObjectCorrupt, ''/'')
   \<and> parseName [] = (Inl errBufNotAvailable, [])
   \<and> (name \<noteq> [] \<and> scanWhitespaceOrChar name ''/<>()[]%'' = None \<longrightarrow>
        parseName (CHR ''/'' # name) =
          (if validateNameHexSequence name then (Inr name, [])
           else (Inl errNameObjectCorrupt, [])))"
proof (intro conjI impI)
  show "parseName line = (Inl errNameObjectCorrupt, line)" if "length line = 1"
    using that by (simp add: parseName_def)
  show "ParseObject pf (Suc n) ''/'' = Some (Inl errNameObjectCorrupt, ''/'')"
    by (simp add: ParseObject_body_def noBuf_def trimLeftSpace_slash parseName_def)
  show "parseName [] = (Inl errBufNotAvailable, [])"
    by (simp add: parseName_def)
  show "parseName (CHR ''/'' # name) =
          (if validateNameHexSequence name then (Inr name, [])
           else (Inl errNameObjectCorrupt, []))"
    if "name \<noteq> [] \<and> scanWhitespaceOrChar name ''/<>()[]%'' = None"
    using that parseName_end_of_buffer by blast
qed

theorem C10_parseName_short_buffer_witness:
  "length ''/'' = 1 \<and> parseName ''/'' = (Inl errNameObjectCorrupt, ''/'')
   \<and> ParseObject (\<lambda>s. None :: unit option) (Suc 0) ''/'' = Some (Inl errNameObjectCorrupt, ''/'')
   \<and> scanWhitespaceOrChar ''A#20B'' ''/<>()[]%'' = None
   \<and> parseName ''/A#20B'' = (Inr ''A#20B'', [])
   \<and> scanWhitespaceOrChar ''A#'' ''/<>()[]%'' = None
   \<and> parseName ''/A#'' = (Inl errNameObjectCorrupt, [])"
proof -
  have a: "scanWhitespaceOrChar ''A#20B'' ''/<>()[]%'' = None"
    and b: "scanWhitespaceOrChar ''A#'' ''/<>()[]%'' = None"
    by (simp_all add: whitespace_def asciiSpace_def)
  have c: "validateNameHexSequence ''A#20B''" "\<not> validateNameHexSequence ''A#''"
    by (simp_all add: hexDigit_def)
  show ?thesis
    using C10_parseName_short_buffer [of "''/''" "\<lambda>s. None :: unit option" 0 "''A#20B''"]
      C10_parseName_short_buffer [of "''/''" "\<lambda>s. None :: unit option" 0 "''A#''"] a b c
    by simp
qed

subsection \<open>Hexadecimal strings\<close>

lemma ToUpper_white:
  "ToUpper c \<in> set [CHR '' '', CHR 0x09, CHR 0x0A, CHR 0x0C, CHR 0x0D] \<longleftrightarrow> hexWhite c"
  by (simp add: ToUpper_def hexWhite_def)

lemma hexWhite_ToUpper: "hexWhite (ToUpper c) \<longleftrightarrow> hexWhite c"
  using ToUpper_white by (simp add: hexWhite_def)

lemma ToUpper_hex: "ToUpper c \<in> set ''ABCDEF1234567890'' \<longleftrightarrow> hexDigit c"
  by (auto simp: ToUpper_def hexDigit_def)

lemma padEven_odd: "length r mod 2 = Suc 0 \<Longrightarrow> padEven r = r @ ''0''"
  by (simp add: padEven_def odd_iff_mod_2_eq_one)

lemma padEven_even: "length r mod 2 = 0 \<Longrightarrow> padEven r = r"
  by (auto simp: padEven_def)

lemma hexString_loop_white:
  "hexWhite c \<Longrightarrow> hexString_loop (c # cs) sb i =
     (if i mod 2 > 0 then hexString_loop cs (sb @ ''0'') 0 else hexString_loop cs sb i)"
  by (simp only: hexString_loop.simps ToUpper_white if_True)

lemma hexString_loop_digit:
  "\<not> hexWhite c \<Longrightarrow> hexDigit c \<Longrightarrow>
   hexString_loop (c # cs) sb i = hexString_loop cs (sb @ [ToUpper c]) (i + 1)"
  by (simp only: hexString_loop.simps ToUpper_white ToUpper_hex if_True if_False)

lemma hexString_loop_other:
  "\<not> hexWhite c \<Longrightarrow> \<not> hexDigit c \<Longrightarrow> hexString_loop (c # cs) sb i = None"
  by (simp only: hexString_loop.simps ToUpper_white ToUpper_hex if_False)

text \<open>
  The invariant of the loop: the builder holds the finished runs \<open>out\<close> and the run
  \<open>cur\<close> being read, and the counter has the parity of the length of \<open>cur\<close>.
\<close>

lemma hexString_loop_runs:
  "\<forall>c\<in>set s. hexDigit c \<or> hexWhite c \<Longrightarrow> i mod 2 = length cur mod 2 \<Longrightarrow>
   hexString_loop s (out @ cur) i =
     Some (out @ concat (map padEven (digitRuns (map ToUpper s) cur)))"
proof (induction s arbitrary: out cur i)
  case Nil
  then show ?case
    by (cases "length cur mod 2 = 0") (auto simp: padEven_odd padEven_even)
next
  case (Cons c cs)
  show ?case
  proof (cases "hexWhite c")
    case True
    show ?thesis
    proof (cases "i mod 2 > 0")
      case odd: True
      have "hexString_loop cs ((out @ cur @ ''0'') @ []) 0 =
              Some ((out @ cur @ ''0'') @ concat (map padEven (digitRuns (map ToUpper cs) [])))"
        by (rule Cons.IH) (use Cons.prems in auto)
      with True odd Cons.prems(2) show ?thesis
        by (simp add: hexString_loop_white hexWhite_ToUpper padEven_odd padEven_even
            del: hexString_loop.simps)
    next
      case even: False
      have "hexString_loop cs ((out @ cur) @ []) i =
              Some ((out @ cur) @ concat (map padEven (digitRuns (map ToUpper cs) [])))"
        by (rule Cons.IH) (use Cons.prems even in auto)
      with True even Cons.prems(2) show ?thesis
        by (simp add: hexString_loop_white hexWhite_ToUpper padEven_odd padEven_even
            del: hexString_loop.simps)
    qed
  next
    case False
    with Cons.prems have h: "hexDigit c" by simp
    have "hexString_loop cs (out @ (cur @ [ToUpper c])) (i + 1) =
            Some (out @ concat (map padEven (digitRuns (map ToUpper cs) (cur @ [ToUpper c]))))"
      by (rule Cons.IH) (use Cons.prems in \<open>auto simp: mod_Suc\<close>)
    with False h show ?thesis
      by (simp add: hexString_loop_digit hexWhite_ToUpper del: hexString_loop.simps)
  qed
qed

lemma hexString_loop_reject:
  "\<exists>c\<in>set s. \<not> hexDigit c \<and> \<not> hexWhite c \<Longrightarrow> hexString_loop s sb i = None"
proof (induction s arbitrary: sb i)
  case Nil
  then show ?case by simp
next
  case (Cons c cs)
  show ?case
  proof (cases "\<not> hexDigit c \<and> \<not> hexWhite c")
    case True
    then show ?thesis
      by (simp add: hexString_loop_other del: hexString_loop.simps)
  next
    case False
    with Cons.prems have "\<exists>c\<in>set cs. \<not> hexDigit c \<and> \<not> hexWhite c" by auto
    then have "\<And>sb i. hexString_loop cs sb i = None" using Cons.IH by blast
    then show ?thesis
      using False
      by (cases "hexWhite c")
        (simp_all add: hexString_loop_white hexString_loop_digit del: hexString_loop.simps)
  qed
qed

text \<open>
  Claim C4, as stated, fails on \<^verbatim>\<open>4 1\<close>: the content has two digits, an even number, and
  one space; the claim gives \<^verbatim>\<open>41\<close>, and \<^verbatim>\<open>hexString\<close> returns \<^verbatim>\<open>4010\<close>, as the digit
  before the space is padded on its own. So does \<^verbatim>\<open>parseHexLiteral\<close> on \<^verbatim>\<open><4 1>\<close>.
\<close>

theorem C4_padding_counterexample:
  "hexString ''4 1'' = Some ''4010'' \<and> ''4010'' \<noteq> ''41''
   \<and> parseHexLiteral ''<4 1>'' = (Inr (HexLiteral ''4010'' :: unit Object), [])"
  by (simp add: hexString_def ToUpper_def parseHexLiteral_def forwardParseBuf_def TrimSpace_def
      TrimLeftFunc.simps TrimRightSpace.simps lastSpaceRune_def asciiSpace_def)

lemma Index_first: "c \<notin> set xs \<Longrightarrow> Index (xs @ c # ys) [c] = Some (length xs)"
  by (induction xs) auto

text \<open>
  \<^verbatim>\<open>parseHexLiteral\<close> on a literal: the content up to the first \<^verbatim>\<open>>\<close> goes through
  \<^verbatim>\<open>strings.TrimSpace\<close> and then through \<^verbatim>\<open>hexString\<close>.
\<close>

lemma parseHexLiteral_literal:
  assumes "CHR ''>'' \<notin> set content"
  shows "parseHexLiteral (CHR ''<'' # content @ CHR ''>'' # rest) =
     (case hexString (TrimSpace content) of
        None \<Rightarrow> (Inl errHexLiteralCorrupt, CHR ''<'' # content @ CHR ''>'' # rest)
      | Some hexStr \<Rightarrow> (Inr (HexLiteral hexStr), rest))"
proof -
  have i: "Index (content @ CHR ''>'' # rest) ''>'' = Some (length content)"
    using assms by (rule Index_first)
  have f: "forwardParseBuf (CHR ''>'' # rest) 1 = rest"
    by (cases rest) (simp_all add: forwardParseBuf_def)
  show ?thesis
    using i f by (simp add: parseHexLiteral_def forwardParseBuf_def split: option.splits)
qed

text \<open>
  Claim C4, amended: on every string of hexadecimal digits and the bytes space, tab, LF, FF
  and CR, \<^verbatim>\<open>hexString\<close> succeeds and returns the digits in upper case without the white
  space, with one \<^verbatim>\<open>0\<close> appended to every run of digits of odd length (a run ends at white
  space or at the end of the string); any other byte in the string, NUL and VT among them,
  makes \<^verbatim>\<open>hexString\<close> fail. \<^verbatim>\<open>parseHexLiteral\<close> hands \<^verbatim>\<open>hexString\<close> the content between
  \<^verbatim>\<open><\<close> and the first \<^verbatim>\<open>>\<close> with the leading and trailing white space of
  \<^verbatim>\<open>strings.TrimSpace\<close> cut off (VT, NEL and NBSP are such white space, NUL is not): when
  the trimmed content has only hexadecimal digits and the bytes space, tab, LF, FF and CR
  the literal is that result and the cursor is behind the \<^verbatim>\<open>>\<close>; when the trimmed content
  has any other byte the literal fails with \<^verbatim>\<open>errHexLiteralCorrupt\<close>.
\<close>

theorem C4_hexString_runs:
  "((\<forall>c\<in>set s. hexDigit c \<or> hexWhite c) \<longrightarrow> hexString s = Some (normalizeHex_runs s))
   \<and> ((\<exists>c\<in>set s. \<not> hexDigit c \<and> \<not> hexWhite c) \<longrightarrow> hexString s = None)
   \<and> (CHR ''>'' \<notin> set content \<and> (\<forall>c\<in>set (TrimSpace content). hexDigit c \<or> hexWhite c) \<longrightarrow>
        parseHexLiteral (CHR ''<'' # content @ CHR ''>'' # rest)
          = (Inr (HexLiteral (normalizeHex_runs (TrimSpace content))), rest))
   \<and> (CHR ''>'' \<notin> set content \<and> (\<exists>c\<in>set (TrimSpace content). \<not> hexDigit c \<and> \<not> hexWhite c) \<longrightarrow>
        parseHexLiteral (CHR ''<'' # content @ CHR ''>'' # rest)
          = (Inl errHexLiteralCorrupt, CHR ''<'' # content @ CHR ''>'' # rest))"
proof -
  have ok: "hexString s = Some (normalizeHex_runs s)"
    if a: "\<forall>c\<in>set s. hexDigit c \<or> hexWhite c" for s
  proof -
    have "hexString_loop s ([] @ []) 0 =
            Some ([] @ concat (map padEven (digitRuns (map ToUpper s) [])))"
      by (rule hexString_loop_runs) (use a in auto)
    then show ?thesis
      by (cases s) (simp_all add: hexString_def normalizeHex_runs_def padEven_def)
  qed
  have bad: "hexString s = None" if "\<exists>c\<in>set s. \<not> hexDigit c \<and> \<not> hexWhite c" for s
    using that hexString_loop_reject [of s "[]" 0] by (auto simp: hexString_def)
  show ?thesis
  proof (intro conjI impI)
    show "hexString s = Some (normalizeHex_runs s)" if "\<forall>c\<in>set s. hexDigit c \<or> hexWhite c"
      using that by (rule ok)
    show "hexString s = None" if "\<exists>c\<in>set s. \<not> hexDigit c \<and> \<not> hexWhite c"
      using that by (rule bad)
    show "parseHexLiteral (CHR ''<'' # content @ CHR ''>'' # rest)
          = (Inr (HexLiteral (normalizeHex_runs (TrimSpace content))), rest)"
      if "CHR ''>'' \<notin> set content \<and> (\<forall>c\<in>set (TrimSpace content). hexDigit c \<or> hexWhite c)"
      using that ok [of "TrimSpace content"] by (simp add: parseHexLiteral_literal)
    show "parseHexLiteral (CHR ''<'' # content @ CHR ''>'' # rest)
          = (Inl errHexLiteralCorrupt, CHR ''<'' # content @ CHR ''>'' # rest)"
      if "CHR ''>'' \<notin> set content
          \<and> (\<exists>c\<in>set (TrimSpace content). \<not> hexDigit c \<and> \<not> hexWhite c)"
      using that bad [of "TrimSpace content"] by (simp add: parseHexLiteral_literal)
  qed
qed

theorem C4_hexString_runs_witness:
  "list_all (\<lambda>c. hexDigit c \<or> hexWhite c) ''a 1b'' \<and> hexString ''a 1b'' = Some ''A01B''
   \<and> list_ex (\<lambda>c. \<not> hexDigit c \<and> \<not> hexWhite c) [CHR ''4'', CHR 0x00, CHR ''1'']
   \<and> hexString [CHR ''4'', CHR 0x00, CHR ''1''] = None
   \<and> TrimSpace (CHR 0x0B # ''a 1b '') = ''a 1b''
   \<and> parseHexLiteral (CHR ''<'' # (CHR 0x0B # ''a 1b '') @ CHR ''>'' # ''x'')
        = (Inr (HexLiteral ''A01B'' :: unit Object), ''x'')
   \<and> TrimSpace [CHR ''4'', CHR 0x0B, CHR ''1''] = [CHR ''4'', CHR 0x0B, CHR ''1'']
   \<and> parseHexLiteral (CHR ''<'' # [CHR ''4'', CHR 0x0B, CHR ''1''] @ CHR ''>'' # ''x'')
        = (Inl errHexLiteralCorrupt :: error + unit Object,
           CHR ''<'' # [CHR ''4'', CHR 0x0B, CHR ''1''] @ CHR ''>'' # ''x'')"
proof -
  have t1: "TrimSpace (CHR 0x0B # ''a 1b '') = ''a 1b''"
    by code_simp
  have t2: "TrimSpace [CHR ''4'', CHR 0x0B, CHR ''1''] = [CHR ''4'', CHR 0x0B, CHR ''1'']"
    by code_simp
  have n: "normalizeHex_runs ''a 1b'' = ''A01B''"
    by (simp add: normalizeHex_runs_def padEven_def ToUpper_def hexWhite_def)
  show ?thesis
    using C4_hexString_runs [of "''a 1b''" "CHR 0x0B # ''a 1b ''" "''x''", where ?'a = unit]
      C4_hexString_runs [of "[CHR ''4'', CHR 0x00, CHR ''1'']" "[CHR ''4'', CHR 0x0B, CHR ''1'']"
        "''x''", where ?'a = unit]
    by (simp add: t1 t2 n hexDigit_def hexWhite_def)
qed

subsection \<open>The cursor\<close>

lemma suffix_TrimLeftFunc: "suffix (TrimLeftFunc s f) s"
proof (induction s f rule: TrimLeftFunc.induct)
  case (1 s f)
  show ?case
  proof (cases "s = [] \<or> f s = 0")
    case True
    then show ?thesis by (simp add: TrimLeftFunc.simps)
  next
    case False
    then have "suffix (TrimLeftFunc (drop (f s) s) f) (drop (f s) s)"
      using "1.IH" by simp
    then have "suffix (TrimLeftFunc (drop (f s) s) f) s"
      using suffix_drop suffix_order.trans by blast
    with False show ?thesis by (simp add: TrimLeftFunc.simps [of s])
  qed
qed

lemma suffix_positionToNextEOL: "suffix (positionToNextEOL s) s"
  by (simp add: positionToNextEOL_def suffix_dropWhile)

lemma trimLeftSpace_loop_step:
  assumes "s1 = (if relaxed then TrimLeftFunc s whitespaceNoEol else s)"
    and "eol1 = (if relaxed \<and> length s1 \<ge> 1 \<and> (hd s1 = CHR 0x0A \<or> hd s1 = CHR 0x0D) then True else eol)"
    and "s2 = TrimLeftFunc s1 whitespace"
  shows "trimLeftSpace_loop s relaxed eol =
     (if length s2 \<le> 1 \<or> hd s2 \<noteq> CHR ''%'' then (s2, eol1)
      else trimLeftSpace_loop (positionToNextEOL s2) relaxed eol1)"
  unfolding assms by (subst trimLeftSpace_loop.simps) (simp only: Let_def)

lemma suffix_trimLeftSpace_loop: "suffix (fst (trimLeftSpace_loop s relaxed eol)) s"
proof (induction s relaxed eol rule: trimLeftSpace_loop.induct)
  case (1 s relaxed eol)
  define s1 where "s1 = (if relaxed then TrimLeftFunc s whitespaceNoEol else s)"
  define eol1 where "eol1 = (if relaxed \<and> length s1 \<ge> 1 \<and> (hd s1 = CHR 0x0A \<or> hd s1 = CHR 0x0D) then True else eol)"
  define s2 where "s2 = TrimLeftFunc s1 whitespace"
  have "suffix s1 s"
    unfolding s1_def by (simp add: suffix_TrimLeftFunc)
  moreover have "suffix s2 s1"
    unfolding s2_def by (rule suffix_TrimLeftFunc)
  ultimately have a: "suffix s2 s"
    using suffix_order.trans by blast
  show ?case
  proof (cases "length s2 \<le> 1 \<or> hd s2 \<noteq> CHR ''%''")
    case True
    then show ?thesis
      using a by (simp add: trimLeftSpace_loop_step [OF s1_def eol1_def s2_def])
  next
    case False
    have "suffix (fst (trimLeftSpace_loop (positionToNextEOL s2) relaxed eol1)) (positionToNextEOL s2)"
      using "1.IH" [OF s1_def eol1_def s2_def] False by simp
    then have "suffix (fst (trimLeftSpace_loop (positionToNextEOL s2) relaxed eol1)) s"
      using a suffix_positionToNextEOL suffix_order.trans by blast
    with False show ?thesis
      by (simp add: trimLeftSpace_loop_step [OF s1_def eol1_def s2_def])
  qed
qed

lemma suffix_trimLeftSpace: "suffix (fst (trimLeftSpace s relaxed)) s"
  by (simp add: trimLeftSpace_def suffix_trimLeftSpace_loop)

lemma suffix_forwardParseBuf: "suffix (forwardParseBuf buf pos) buf"
  by (simp add: forwardParseBuf_def suffix_drop)

lemma length_forwardParseBuf: "length (forwardParseBuf buf pos) = length buf - pos"
  by (simp add: forwardParseBuf_def)


lemma length_fst_trimLeftSpace: "length (fst (trimLeftSpace s relaxed)) \<le> length s"
  using suffix_trimLeftSpace suffix_length_le by blast

lemma parseName_cursor:
  assumes "parseName line = (Inr nm, l')"
  shows "suffix l' line \<and> length l' < length line"
proof -
  define l where "l = forwardParseBuf line 1"
  have 1: "suffix l line" "length l < length line \<or> line = []"
    unfolding l_def by (auto simp: suffix_forwardParseBuf length_forwardParseBuf)
  have "l' = [] \<or> (\<exists>k. l' = drop k l)" and ne: "line \<noteq> []"
    using assms unfolding parseName_def Let_def l_def [symmetric]
    by (auto split: if_splits)
  then have "suffix l' l"
    by (auto simp: suffix_drop)
  then show ?thesis
    using 1 ne by (meson suffix_order.trans suffix_length_le le_less_trans)
qed

lemma parseStringLiteral_cursor:
  assumes "parseStringLiteral line = (Inr v, l')"
  shows "suffix l' line \<and> length l' < length line"
proof -
  from assms obtain i where l': "l' = forwardParseBuf (drop i line) 1" and ne: "length line \<ge> 2"
    unfolding parseStringLiteral_def Let_def by (auto split: if_splits)
  have "suffix l' (drop i line)" unfolding l' by (rule suffix_forwardParseBuf)
  then have "suffix l' line" using suffix_drop suffix_order.trans by blast
  moreover have "length l' < length line"
    using ne unfolding l' by (simp add: length_forwardParseBuf)
  ultimately show ?thesis by simp
qed

lemma parseHexLiteral_cursor:
  assumes "parseHexLiteral line = (Inr v, l')"
  shows "suffix l' line \<and> length l' < length line"
proof -
  from assms obtain i where l': "l' = forwardParseBuf (drop i (forwardParseBuf line 1)) 1" and ne: "length line \<ge> 2"
    unfolding parseHexLiteral_def Let_def by (auto split: if_splits option.splits)
  have "suffix l' (drop i (forwardParseBuf line 1))" unfolding l' by (rule suffix_forwardParseBuf)
  then have "suffix l' line"
    using suffix_drop suffix_forwardParseBuf suffix_order.trans by blast
  moreover have "length l' < length line"
    using ne unfolding l' by (simp add: length_forwardParseBuf)
  ultimately show ?thesis by simp
qed

lemma startParse_cursor:
  assumes "startParseNumericOrIndRef l = (s, l1, i1)" "l \<noteq> []"
  shows "suffix l1 l \<and> length l1 < length l"
proof -
  have "l1 = (if i1 > 0 then drop (nat i1) l else drop (length l) l)"
    using assms(1) unfolding startParseNumericOrIndRef_def Let_def by auto
  then show ?thesis using assms(2) by (auto simp: suffix_drop)
qed

lemma parseIndRef_cursor:
  assumes "parseIndRef s l l1 line i i2 rangeErr = (Inr v, l')"
    and "suffix l line" "suffix l1 line" "length l1 < length line"
  shows "suffix l' line \<and> (v \<noteq> Null \<longrightarrow> length l' < length line)"
proof -
  define t where "t = fst (trimLeftSpace (drop (nat i2) l) False)"
  have t: "suffix t line"
    unfolding t_def using assms(2) suffix_trimLeftSpace suffix_drop suffix_order.trans by blast
  have ft: "suffix (forwardParseBuf t 1) line"
    using t suffix_forwardParseBuf suffix_order.trans by blast
  have lt: "t \<noteq> [] \<Longrightarrow> length (forwardParseBuf t 1) < length line"
    using suffix_length_le [OF t] by (cases t) (auto simp: length_forwardParseBuf)
  show ?thesis
    using assms(1,3,4) ft lt unfolding parseIndRef_def Let_def t_def [symmetric]
    by (auto split: sum.splits if_splits)
qed

lemma numericOrIndRef_int_cursor:
  assumes "numericOrIndRef_int line l1 i1 i rangeErr = (Inr v, l')"
    and "suffix l1 line" "length l1 < length line"
  shows "suffix l' line \<and> (v \<noteq> Null \<longrightarrow> length l' < length line)"
proof -
  define l where "l = fst (trimLeftSpace (drop (nat i1) line) False)"
  have l: "suffix l line"
    unfolding l_def using suffix_trimLeftSpace suffix_drop suffix_order.trans by blast
  have "(v = Integer i \<and> l' = l1) \<or> (\<exists>s i2. parseIndRef s l l1 line i i2 rangeErr = (Inr v, l'))"
    using assms(1) unfolding numericOrIndRef_int_def Let_def l_def [symmetric]
    by (auto split: if_splits)
  then show ?thesis
    using assms(2,3) parseIndRef_cursor [OF _ l assms(2,3)] by blast
qed

lemma parseNumericOrIndRef_cursor:
  assumes "parseNumericOrIndRef pf line = (Inr v, l')"
  shows "suffix l' line \<and> (v \<noteq> Null \<longrightarrow> length l' < length line)"
proof -
  obtain s l1 i1 where sp: "startParseNumericOrIndRef line = (s, l1, i1)"
    by (cases "startParseNumericOrIndRef line") auto
  from assms have ne: "line \<noteq> []"
    unfolding parseNumericOrIndRef_def noBuf_def by (auto split: if_splits)
  note c = startParse_cursor [OF sp ne]
  have "l' = l1 \<or> (\<exists>i r. numericOrIndRef_int line l1 i1 i r = (Inr v, l'))"
    using assms unfolding parseNumericOrIndRef_def noBuf_def sp
    by (auto split: sum.splits if_splits)
  then show ?thesis
    using c numericOrIndRef_int_cursor [of line l1 i1 _ _ v l'] by blast
qed

lemma parseArray_loop_cursor:
  assumes po: "\<And>l v l'. po l = Some (Inr v, l') \<Longrightarrow> suffix l' l"
  shows "parseArray_loop po n a l = Some (Inr (a', l')) \<Longrightarrow> suffix l' l"
proof (induction n arbitrary: a l)
  case 0
  then show ?case by simp
next
  case (Suc n)
  show ?case
  proof (cases "prefix '']'' l")
    case True
    with Suc.prems show ?thesis by simp
  next
    case False
    with Suc.prems obtain obj l2 where p: "po l = Some (Inr obj, l2)"
      and r: "parseArray_loop po n (a @ [obj]) (fst (trimLeftSpace l2 False)) = Some (Inr (a', l'))"
      by (auto simp: Let_def split: option.splits sum.splits if_splits)
    have "suffix l' (fst (trimLeftSpace l2 False))" using Suc.IH [OF r] .
    then show ?thesis
      using po [OF p] suffix_trimLeftSpace suffix_order.trans by blast
  qed
qed

lemma parseArray_cursor:
  assumes po: "\<And>l v l'. po l = Some (Inr v, l') \<Longrightarrow> suffix l' l"
    and "parseArray po n line = Some (Inr a, l')"
  shows "suffix l' line \<and> length l' < length line"
proof -
  define l0 where "l0 = fst (trimLeftSpace (forwardParseBuf line 1) False)"
  from assms(2) obtain l2 where r: "parseArray_loop po n [] l0 = Some (Inr (a, l2))"
    and l': "l' = forwardParseBuf l2 1" and ne: "line \<noteq> []"
    unfolding parseArray_def Let_def l0_def [symmetric]
    by (auto split: if_splits option.splits sum.splits)
  have "suffix l2 l0" using parseArray_loop_cursor [OF po r] .
  moreover have "suffix l0 (forwardParseBuf line 1)"
    unfolding l0_def by (rule suffix_trimLeftSpace)
  ultimately have a: "suffix l' (forwardParseBuf line 1)"
    unfolding l' using suffix_forwardParseBuf suffix_order.trans by blast
  then have "suffix l' line"
    using suffix_forwardParseBuf suffix_order.trans by blast
  moreover have "length l' < length line"
    using suffix_length_le [OF a] ne by (cases line) (auto simp: length_forwardParseBuf)
  ultimately show ?thesis by simp
qed

lemma processDictKeys_loop_cursor:
  assumes po: "\<And>l v l'. po l = Some (Inr v, l') \<Longrightarrow> suffix l' l"
  shows "processDictKeys_loop po n relaxed d l = Some (Inr (d', l')) \<Longrightarrow> suffix l' l"
proof (induction n arbitrary: d l)
  case 0
  then show ?case by simp
next
  case (Suc n)
  show ?case
  proof (cases "prefix ''>>'' l")
    case True
    with Suc.prems show ?thesis by simp
  next
    case False
    obtain r l1 where pn0: "parseName l = (r, l1)"
      by (cases "parseName l") auto
    obtain l2 eol where tr: "trimLeftSpace l1 relaxed = (l2, eol)"
      by (cases "trimLeftSpace l1 relaxed") auto
    show ?thesis
    proof (cases r)
      case (Inl e)
      with Suc.prems False pn0 show ?thesis by simp
    next
      case (Inr key)
      have s2: "suffix l2 l"
        using parseName_cursor [of l key l1] pn0 Inr suffix_trimLeftSpace [of l1 relaxed] tr
        by (auto intro: suffix_order.trans)
      have ne: "length l2 \<noteq> 0"
        using Suc.prems False pn0 Inr tr by (auto split: if_splits)
      show ?thesis
      proof (cases eol)
        case True
        obtain d1 ok where ins: "Insert d key (StringLiteral []) = (d1, ok)"
          by (cases "Insert d key (StringLiteral [] :: 'a Object)") auto
        have "processDictKeys_loop po n relaxed d1 l2 = Some (Inr (d', l'))"
          using Suc.prems False pn0 Inr tr ne True ins by (simp split: if_splits)
        from Suc.IH [OF this] s2 show ?thesis
          using suffix_order.trans by blast
      next
        case no: False
        have e: "processDictKeys_loop po (Suc n) relaxed d l =
          (case po l2 of
             None \<Rightarrow> None
           | Some (Inl err, _) \<Rightarrow> Some (Inl err)
           | Some (Inr obj, l) \<Rightarrow>
               let d = (if obj \<noteq> Null then fst (Insert d key obj) else d)
               in if length l = 0 then Some (Inl errDictionaryNotTerminated)
                  else
                    let l = fst (trimLeftSpace l False)
                    in if length l = 0 then Some (Inl errDictionaryNotTerminated)
                       else processDictKeys_loop po n relaxed d l)"
          using False pn0 Inr tr ne no by simp
        obtain obj l3 where p: "po l2 = Some (Inr obj, l3)"
          using Suc.prems unfolding e by (auto split: option.splits sum.splits)
        obtain d1 where r: "processDictKeys_loop po n relaxed d1 (fst (trimLeftSpace l3 False))
            = Some (Inr (d', l'))"
          using Suc.prems unfolding e p by (auto simp: Let_def split: if_splits)
        have "suffix l' (fst (trimLeftSpace l3 False))" using Suc.IH [OF r] .
        then have "suffix l' l2"
          using po [OF p] suffix_trimLeftSpace suffix_order.trans by blast
        with s2 show ?thesis
          using suffix_order.trans by blast
      qed
    qed
  qed
qed

text \<open>The three ways \<^verbatim>\<open>parseDict\<close> ends; a failure returns \<^verbatim>\<open>*line\<close> as it came.\<close>

lemma parseDict_cases:
  obtains (failure) err where "parseDict po n line relaxed = Some (Inl err, line)"
  | (no_result) "parseDict po n line relaxed = None"
  | (success) d l2 where "parseDict po n line relaxed = Some (Inr d, forwardParseBuf l2 2)"
      and "processDictKeys_loop po n relaxed NewDict
             (fst (trimLeftSpace (forwardParseBuf line 2) False)) = Some (Inr (d, l2))"
      and "4 \<le> length line" and "prefix ''<<'' line"
proof -
  define l0 where "l0 = fst (trimLeftSpace (forwardParseBuf line 2) False)"
  consider "length line = 0" | "length line \<noteq> 0" "length line < 4 \<or> \<not> prefix ''<<'' line"
    | "4 \<le> length line" "prefix ''<<'' line" "length l0 = 0"
    | "4 \<le> length line" "prefix ''<<'' line" "length l0 \<noteq> 0"
    by linarith
  then show ?thesis
  proof cases
    case 1
    then have "parseDict po n line relaxed = Some (Inl errNoDictionary, line)"
      by (simp add: parseDict_def)
    then show ?thesis by (rule failure)
  next
    case 2
    then have "parseDict po n line relaxed = Some (Inl errDictionaryCorrupt, line)"
      by (simp add: parseDict_def)
    then show ?thesis by (rule failure)
  next
    case 3
    then have "parseDict po n line relaxed = Some (Inl errDictionaryNotTerminated, line)"
      unfolding parseDict_def Let_def l0_def [symmetric] by auto
    then show ?thesis by (rule failure)
  next
    case 4
    then have e: "parseDict po n line relaxed =
        (case processDictKeys po n l0 relaxed of
           None \<Rightarrow> None
         | Some (Inl err, _) \<Rightarrow> Some (Inl err, line)
         | Some (Inr d, l) \<Rightarrow> Some (Inr d, forwardParseBuf l 2))"
      unfolding parseDict_def Let_def l0_def [symmetric] by auto
    show ?thesis
    proof (cases "processDictKeys_loop po n relaxed NewDict l0")
      case None
      then have "parseDict po n line relaxed = None"
        using e by (simp add: processDictKeys_def)
      then show ?thesis by (rule no_result)
    next
      case (Some r)
      show ?thesis
      proof (cases r)
        case (Inl err)
        then have "parseDict po n line relaxed = Some (Inl err, line)"
          using e Some by (simp add: processDictKeys_def)
        then show ?thesis by (rule failure)
      next
        case (Inr p)
        obtain d l2 where p: "p = (d, l2)" by (cases p) auto
        have "parseDict po n line relaxed = Some (Inr d, forwardParseBuf l2 2)"
          using e Some Inr p by (simp add: processDictKeys_def)
        moreover have "processDictKeys_loop po n relaxed NewDict
             (fst (trimLeftSpace (forwardParseBuf line 2) False)) = Some (Inr (d, l2))"
          using Some Inr p by (simp add: l0_def)
        ultimately show ?thesis using 4(1,2) by (rule success)
      qed
    qed
  qed
qed

lemma parseDict_cursor:
  assumes po: "\<And>l v l'. po l = Some (Inr v, l') \<Longrightarrow> suffix l' l"
    and "parseDict po n line relaxed = Some (Inr d, l')"
  shows "suffix l' line \<and> length l' < length line"
proof (cases rule: parseDict_cases [of po n line relaxed])
  case (failure err)
  with assms(2) show ?thesis by simp
next
  case no_result
  with assms(2) show ?thesis by simp
next
  case (success d2 l2)
  with assms(2) have l': "l' = forwardParseBuf l2 2" by simp
  define l0 where "l0 = fst (trimLeftSpace (forwardParseBuf line 2) False)"
  have "suffix l2 l0"
    using processDictKeys_loop_cursor [OF po success(2)] by (simp add: l0_def)
  moreover have "suffix l0 (forwardParseBuf line 2)"
    unfolding l0_def by (rule suffix_trimLeftSpace)
  ultimately have a: "suffix l' (forwardParseBuf line 2)"
    unfolding l' using suffix_forwardParseBuf suffix_order.trans by blast
  then have "suffix l' line"
    using suffix_forwardParseBuf suffix_order.trans by blast
  moreover have "length l' < length line"
    using suffix_length_le [OF a] success(3) by (simp add: length_forwardParseBuf)
  ultimately show ?thesis by simp
qed

lemma parseDict_failure_cursor:
  assumes "parseDict po n line relaxed = Some (Inl err, l')"
  shows "l' = line"
  using assms by (cases rule: parseDict_cases [of po n line relaxed]) simp_all

lemma parseHexLiteralOrDict_cursor:
  assumes po: "\<And>l v l'. po l = Some (Inr v, l') \<Longrightarrow> suffix l' l"
    and "parseHexLiteralOrDict po n line = Some (Inr v, l')"
  shows "suffix l' line \<and> length l' < length line"
proof (cases "line ! 1 = CHR ''<''")
  case True
  from assms(2) have len: "\<not> length line < 2"
    unfolding parseHexLiteralOrDict_def by (simp split: if_splits)
  show ?thesis
  proof (cases rule: parseDict_cases [of po n line False])
    case (failure err)
    then have e: "parseHexLiteralOrDict po n line =
         (case parseDict po n line True of
            None \<Rightarrow> None
          | Some (Inl err, l) \<Rightarrow> Some (Inl err, l)
          | Some (Inr d, l) \<Rightarrow> Some (Inr (Dict d), l))"
      using True len by (simp add: parseHexLiteralOrDict_def)
    show ?thesis
    proof (cases rule: parseDict_cases [of po n line True])
      case (failure err)
      with assms(2) e show ?thesis by simp
    next
      case no_result
      with assms(2) e show ?thesis by simp
    next
      case (success d l2)
      with assms(2) e have "parseDict po n line True = Some (Inr d, l')" by simp
      from parseDict_cursor [OF po this] show ?thesis .
    qed
  next
    case no_result
    with assms(2) True len show ?thesis by (simp add: parseHexLiteralOrDict_def)
  next
    case (success d l2)
    with assms(2) True len have "parseDict po n line False = Some (Inr d, l')"
      by (simp add: parseHexLiteralOrDict_def)
    from parseDict_cursor [OF po this] show ?thesis .
  qed
next
  case False
  from assms(2) have len: "\<not> length line < 2"
    unfolding parseHexLiteralOrDict_def by (simp split: if_splits)
  obtain r l1 where ph: "parseHexLiteral line = (r :: error + 'a Object, l1)"
    by (cases "parseHexLiteral line :: (error + 'a Object) \<times> string") auto
  with assms(2) False len have "parseHexLiteral line = (Inr v, l')"
    unfolding parseHexLiteralOrDict_def by (cases r) simp_all
  then show ?thesis by (rule parseHexLiteral_cursor)
qed

lemma parseBooleanOrNull_cursor:
  assumes "parseBooleanOrNull l = (v, valStr, True)"
  shows "length (forwardParseBuf l (length valStr)) < length l"
proof -
  from assms have "prefix valStr l \<and> valStr \<noteq> []"
    unfolding parseBooleanOrNull_def by (auto split: if_splits)
  then show ?thesis
    by (cases valStr; cases l) (auto simp: length_forwardParseBuf)
qed

lemma ParseObject_body_cursor:
  assumes po: "\<And>l v l'. po l = Some (Inr v, l') \<Longrightarrow> suffix l' l"
    and res: "ParseObject_body pf po n line = Some (Inr v, l')"
  shows "suffix l' line \<and> (v \<noteq> Null \<longrightarrow> length l' < length line)"
proof -
  define l where "l = fst (trimLeftSpace line False)"
  have sl: "suffix l line" unfolding l_def by (rule suffix_trimLeftSpace)
  have ll: "length l \<le> length line" using sl by (rule suffix_length_le)
  from res have nb: "\<not> noBuf line" and ne: "length l \<noteq> 0"
    unfolding ParseObject_body_def Let_def l_def [symmetric] by (auto split: if_splits)
  have goal: "suffix l' l \<and> (v \<noteq> Null \<longrightarrow> length l' < length l) \<Longrightarrow> ?thesis"
    using sl ll suffix_order.trans by fastforce
  consider (arr) "hd l = CHR ''[''" | (nam) "hd l = CHR ''/''" | (hex) "hd l = CHR ''<''"
    | (str) "hd l = CHR ''(''"
    | (other) "hd l \<noteq> CHR ''[''" "hd l \<noteq> CHR ''/''" "hd l \<noteq> CHR ''<''" "hd l \<noteq> CHR ''(''"
    by blast
  then show ?thesis
  proof cases
    case arr
    then have e: "ParseObject_body pf po n line =
      (case parseArray po n l of
                None \<Rightarrow> None
              | Some (Inl err, _) \<Rightarrow> Some (Inl err, line)
              | Some (Inr a, l) \<Rightarrow> Some (Inr (Array a), l))"
      using nb ne unfolding ParseObject_body_def Let_def l_def [symmetric] by simp
    from res obtain a where "parseArray po n l = Some (Inr a, l')"
      unfolding e by (auto split: option.splits sum.splits)
    from parseArray_cursor [OF po this] show ?thesis using goal by simp
  next
    case nam
    then have e: "ParseObject_body pf po n line =
      (case parseName l of
                (Inl err, _) \<Rightarrow> Some (Inl err, line)
              | (Inr nameObj, l) \<Rightarrow> Some (Inr (Name nameObj), l))"
      using nb ne unfolding ParseObject_body_def Let_def l_def [symmetric] by simp
    from res obtain a where "parseName l = (Inr a, l')"
      unfolding e by (auto split: prod.splits sum.splits)
    from parseName_cursor [OF this] show ?thesis using goal by simp
  next
    case hex
    then have e: "ParseObject_body pf po n line =
      (case parseHexLiteralOrDict po n l of
                None \<Rightarrow> None
              | Some (Inl err, _) \<Rightarrow> Some (Inl err, line)
              | Some (Inr val, l) \<Rightarrow> Some (Inr val, l))"
      using nb ne unfolding ParseObject_body_def Let_def l_def [symmetric] by simp
    from res have "parseHexLiteralOrDict po n l = Some (Inr v, l')"
      unfolding e by (auto split: option.splits sum.splits)
    from parseHexLiteralOrDict_cursor [OF po this] show ?thesis using goal by simp
  next
    case str
    then have e: "ParseObject_body pf po n line =
      (case parseStringLiteral l of
                (Inl err, _) \<Rightarrow> Some (Inl err, line)
              | (Inr val, l) \<Rightarrow> Some (Inr val, l))"
      using nb ne unfolding ParseObject_body_def Let_def l_def [symmetric] by simp
    from res have "parseStringLiteral l = (Inr v, l')"
      unfolding e by (auto split: prod.splits sum.splits)
    from parseStringLiteral_cursor [OF this] show ?thesis using goal by simp
  next
    case other
    then have e: "ParseObject_body pf po n line =
      (case parseBooleanOrNull l of
                (val, valStr, ok) \<Rightarrow>
                  if ok then Some (Inr val, forwardParseBuf l (length valStr))
                  else
                    (case parseNumericOrIndRef pf l of
                       (Inl err, _) \<Rightarrow> Some (Inl err, line)
                     | (Inr val, l) \<Rightarrow> Some (Inr val, l)))"
      using nb ne unfolding ParseObject_body_def Let_def l_def [symmetric] by simp
    obtain val valStr ok where pb: "parseBooleanOrNull l = (val :: 'a Object, valStr, ok)"
      by (cases "parseBooleanOrNull l :: 'a Object \<times> string \<times> bool") auto
    show ?thesis
    proof (cases ok)
      case True
      with res pb have "l' = forwardParseBuf l (length valStr)"
        unfolding e by simp
      then show ?thesis
        using parseBooleanOrNull_cursor [of l val valStr] pb True goal suffix_forwardParseBuf
        by simp
    next
      case False
      with res pb have "parseNumericOrIndRef pf l = (Inr v, l')"
        unfolding e by (auto split: prod.splits sum.splits)
      from parseNumericOrIndRef_cursor [OF this] show ?thesis using goal by simp
    qed
  qed
qed

text \<open>
  Claim C9: whenever \<^verbatim>\<open>ParseObject\<close> succeeds, the cursor it returns is a suffix of the
  buffer it was given, so its position is at or after the starting position; and when the
  object returned is not the \<^verbatim>\<open>nil\<close> object, the returned cursor is strictly shorter: the
  position is strictly greater.
\<close>

theorem C9_cursor_monotone:
  "ParseObject pf n line = Some (Inr v, l') \<Longrightarrow>
   suffix l' line \<and> (v \<noteq> Null \<longrightarrow> length l' < length line)"
proof (induction n arbitrary: line v l')
  case 0
  then show ?case by simp
next
  case (Suc n)
  have po: "\<And>l v l'. ParseObject pf n l = Some (Inr v, l') \<Longrightarrow> suffix l' l"
    using Suc.IH by blast
  from Suc.prems have "ParseObject_body pf (ParseObject pf n) n line = Some (Inr v, l')"
    by simp
  from ParseObject_body_cursor [OF po this] show ?case .
qed



theorem C9_cursor_monotone_witness:
  "ParseObject (\<lambda>s. None :: unit option) 4 ''[1 (a)]''
     = Some (Inr (Array [Integer 1, StringLiteral ''a'']), [])
   \<and> suffix [] ''[1 (a)]'' \<and> Array [Integer 1, StringLiteral ''a''] \<noteq> (Null :: unit Object)
   \<and> length ([] :: string) < length ''[1 (a)]''"
proof -
  have e: "ParseObject (\<lambda>s. None :: unit option) 4 ''[1 (a)]''
      = Some (Inr (Array [Integer 1, StringLiteral ''a'']), [])"
    by code_simp
  from C9_cursor_monotone [OF e] e show ?thesis by simp
qed

subsection \<open>The two attempts at a dictionary\<close>

lemma parseHexLiteralOrDict_two_attempts:
  assumes "2 \<le> length l" "l ! 1 = CHR ''<''"
  shows "parseHexLiteralOrDict po n l =
     (case parseDict po n l False of
        None \<Rightarrow> None
      | Some (Inr d, l') \<Rightarrow> Some (Inr (Dict d), l')
      | Some (Inl err, _) \<Rightarrow>
          (case parseDict po n l True of
             None \<Rightarrow> None
           | Some (Inl err, l') \<Rightarrow> Some (Inl err, l')
           | Some (Inr d, l') \<Rightarrow> Some (Inr (Dict d), l')))"
proof (cases rule: parseDict_cases [of po n l False])
  case (failure err)
  with assms show ?thesis by (simp add: parseHexLiteralOrDict_def)
next
  case no_result
  with assms show ?thesis by (simp add: parseHexLiteralOrDict_def)
next
  case (success d l2)
  with assms show ?thesis by (simp add: parseHexLiteralOrDict_def)
qed

text \<open>
  Claim C8: a call of \<^verbatim>\<open>parseDict\<close> that fails leaves the cursor it was given as it
  was; and when the buffer, after the leading white space, starts with \<^verbatim>\<open><<\<close>,
  \<^verbatim>\<open>ParseObject\<close> is the strict attempt of \<^verbatim>\<open>parseDict\<close> on that cursor and, if that
  fails, the relaxed attempt on the same cursor.
\<close>

theorem C8_two_attempts:
  "(parseDict po n l relaxed = Some (Inl err, l') \<longrightarrow> l' = l)
   \<and> (prefix ''<<'' (fst (trimLeftSpace line False)) \<longrightarrow>
      ParseObject pf (Suc n) line =
        (case parseDict (ParseObject pf n) n (fst (trimLeftSpace line False)) False of
           None \<Rightarrow> None
         | Some (Inr d, l') \<Rightarrow> Some (Inr (Dict d), l')
         | Some (Inl err, _) \<Rightarrow>
             (case parseDict (ParseObject pf n) n (fst (trimLeftSpace line False)) True of
                None \<Rightarrow> None
              | Some (Inl err, _) \<Rightarrow> Some (Inl err, line)
              | Some (Inr d, l') \<Rightarrow> Some (Inr (Dict d), l'))))"
proof (intro conjI impI)
  assume "parseDict po n l relaxed = Some (Inl err, l')"
  then show "l' = l" by (rule parseDict_failure_cursor)
next
  define t where "t = fst (trimLeftSpace line False)"
  assume "prefix ''<<'' (fst (trimLeftSpace line False))"
  then obtain r where t: "t = CHR ''<'' # CHR ''<'' # r"
    unfolding t_def [symmetric] by (auto simp: prefix_def)
  have "suffix t line" unfolding t_def by (rule suffix_trimLeftSpace)
  with t have nb: "\<not> noBuf line" by (auto simp: noBuf_def)
  have two: "parseHexLiteralOrDict (ParseObject pf n) n t =
     (case parseDict (ParseObject pf n) n t False of
        None \<Rightarrow> None
      | Some (Inr d, l') \<Rightarrow> Some (Inr (Dict d), l')
      | Some (Inl err, _) \<Rightarrow>
          (case parseDict (ParseObject pf n) n t True of
             None \<Rightarrow> None
           | Some (Inl err, l') \<Rightarrow> Some (Inl err, l')
           | Some (Inr d, l') \<Rightarrow> Some (Inr (Dict d), l')))"
    by (rule parseHexLiteralOrDict_two_attempts) (simp_all add: t)
  have "ParseObject pf (Suc n) line =
      (case parseHexLiteralOrDict (ParseObject pf n) n t of
                None \<Rightarrow> None
              | Some (Inl err, _) \<Rightarrow> Some (Inl err, line)
              | Some (Inr val, l) \<Rightarrow> Some (Inr val, l))"
    using nb t unfolding ParseObject.simps ParseObject_body_def Let_def t_def [symmetric] by simp
  also have "\<dots> = (case parseDict (ParseObject pf n) n t False of
           None \<Rightarrow> None
         | Some (Inr d, l') \<Rightarrow> Some (Inr (Dict d), l')
         | Some (Inl err, _) \<Rightarrow>
             (case parseDict (ParseObject pf n) n t True of
                None \<Rightarrow> None
              | Some (Inl err, _) \<Rightarrow> Some (Inl err, line)
              | Some (Inr d, l') \<Rightarrow> Some (Inr (Dict d), l')))"
    unfolding two
    by (cases rule: parseDict_cases [of "ParseObject pf n" n t False];
        cases rule: parseDict_cases [of "ParseObject pf n" n t True]) simp_all
  finally show "ParseObject pf (Suc n) line =
        (case parseDict (ParseObject pf n) n (fst (trimLeftSpace line False)) False of
           None \<Rightarrow> None
         | Some (Inr d, l') \<Rightarrow> Some (Inr (Dict d), l')
         | Some (Inl err, _) \<Rightarrow>
             (case parseDict (ParseObject pf n) n (fst (trimLeftSpace line False)) True of
                None \<Rightarrow> None
              | Some (Inl err, _) \<Rightarrow> Some (Inl err, line)
              | Some (Inr d, l') \<Rightarrow> Some (Inr (Dict d), l')))"
    unfolding t_def .
qed

theorem C8_two_attempts_witness:
  "fst (trimLeftSpace (''  << /A'' @ [CHR 0x0A] @ ''/B (x) >>'') False)
     = ''<< /A'' @ [CHR 0x0A] @ ''/B (x) >>''
   \<and> parseDict (ParseObject (\<lambda>s. None :: unit option) 6) 6
        (''<< /A'' @ [CHR 0x0A] @ ''/B (x) >>'') False
     = Some (Inl errNameObjectCorrupt, ''<< /A'' @ [CHR 0x0A] @ ''/B (x) >>'')
   \<and> parseDict (ParseObject (\<lambda>s. None :: unit option) 6) 6
        (''<< /A'' @ [CHR 0x0A] @ ''/B (x) >>'') True
     = Some (Inr [(''A'', StringLiteral []), (''B'', StringLiteral ''x'')], [])
   \<and> ParseObject (\<lambda>s. None :: unit option) (Suc 6) (''  << /A'' @ [CHR 0x0A] @ ''/B (x) >>'')
     = Some (Inr (Dict [(''A'', StringLiteral []), (''B'', StringLiteral ''x'')]), [])"
proof -
  have t: "fst (trimLeftSpace (''  << /A'' @ [CHR 0x0A] @ ''/B (x) >>'') False)
     = ''<< /A'' @ [CHR 0x0A] @ ''/B (x) >>''"
    by code_simp
  have f: "parseDict (ParseObject (\<lambda>s. None :: unit option) 6) 6
        (''<< /A'' @ [CHR 0x0A] @ ''/B (x) >>'') False
     = Some (Inl errNameObjectCorrupt, ''<< /A'' @ [CHR 0x0A] @ ''/B (x) >>'')"
    by code_simp
  have r: "parseDict (ParseObject (\<lambda>s. None :: unit option) 6) 6
        (''<< /A'' @ [CHR 0x0A] @ ''/B (x) >>'') True
     = Some (Inr [(''A'', StringLiteral []), (''B'', StringLiteral ''x'')], [])"
    by code_simp
  have p: "prefix ''<<'' (''<< /A'' @ [CHR 0x0A] @ ''/B (x) >>'')"
    by simp
  show ?thesis
    using C8_two_attempts [of "ParseObject (\<lambda>s. None :: unit option) 6" 6
        "''<< /A'' @ [CHR 0x0A] @ ''/B (x) >>''" False errNameObjectCorrupt
        "''<< /A'' @ [CHR 0x0A] @ ''/B (x) >>''"
        "''  << /A'' @ [CHR 0x0A] @ ''/B (x) >>''" "\<lambda>s. None :: unit option"]
    unfolding t f r using p t f r by simp
qed

subsection \<open>Tokens and separators\<close>

lemma whitespace_Nil: "whitespace [] = 0"
  by (simp add: whitespace_def)

lemma whitespace_start:
  "0 < whitespace s \<Longrightarrow> s \<noteq> [] \<and> \<not> contByte (hd s) \<and> \<not> delimiter (hd s) \<and> hd s \<noteq> CHR ''R''
"
  by (cases s) (auto simp: whitespace_def contByte_def delimiter_def asciiSpace_def split: if_splits)

lemma whitespace_extend:
  "whitespace (c # cs) = 0 \<Longrightarrow> rest = [] \<or> \<not> contByte (hd rest) \<Longrightarrow> whitespace (c # cs @ rest) = 0"
  by (cases cs; cases rest; cases "tl cs")
    (auto simp: whitespace_def contByte_def asciiSpace_def split: if_splits list.splits)

lemma scan_append:
  assumes "scanWhitespaceOrChar tok chars = None" "rest \<noteq> []" "\<not> contByte (hd rest)"
    "hd rest \<in> set chars \<or> 0 < whitespace rest"
  shows "scanWhitespaceOrChar (tok @ rest) chars = Some (length tok)"
  using assms
proof (induction tok)
  case Nil
  then show ?case by (cases rest) auto
next
  case (Cons c cs)
  from Cons.prems(1) have a: "c \<notin> set chars" "whitespace (c # cs) = 0" "scanWhitespaceOrChar cs chars = None"
    by (auto split: if_splits)
  have "whitespace (c # cs @ rest) = 0"
    using a(2) Cons.prems(3) by (rule whitespace_extend [OF _ disjI2])
  then show ?case using a Cons by simp
qed

lemma scan_Some_props:
  "scanWhitespaceOrChar s chars = Some k \<Longrightarrow>
   k < length s \<and> (s ! k \<in> set chars \<or> 0 < whitespace (drop k s))"
proof (induction s arbitrary: k)
  case Nil
  then show ?case by simp
next
  case (Cons c cs)
  show ?case
  proof (cases "c \<in> set chars \<or> 0 < whitespace (c # cs)")
    case True
    with Cons.prems show ?thesis by auto
  next
    case False
    with Cons.prems obtain j where "scanWhitespaceOrChar cs chars = Some j" "k = Suc j"
      by auto
    with Cons.IH [of j] show ?thesis by simp
  qed
qed


lemma TrimLeftFunc_result: "TrimLeftFunc s f = [] \<or> f (TrimLeftFunc s f) = 0"
proof (induction s f rule: TrimLeftFunc.induct)
  case (1 s f)
  show ?case
  proof (cases "s = [] \<or> f s = 0")
    case True
    then show ?thesis by (auto simp: TrimLeftFunc.simps)
  next
    case False
    with "1.IH" show ?thesis by (simp add: TrimLeftFunc.simps [of s])
  qed
qed

lemma trimLeftSpace_loop_result:
  "whitespace (fst (trimLeftSpace_loop s relaxed eol)) = 0
   \<and> (length (fst (trimLeftSpace_loop s relaxed eol)) \<le> 1
      \<or> hd (fst (trimLeftSpace_loop s relaxed eol)) \<noteq> CHR ''%'')"
proof (induction s relaxed eol rule: trimLeftSpace_loop.induct)
  case (1 s relaxed eol)
  define s1 where "s1 = (if relaxed then TrimLeftFunc s whitespaceNoEol else s)"
  define eol1 where "eol1 = (if relaxed \<and> length s1 \<ge> 1 \<and> (hd s1 = CHR 0x0A \<or> hd s1 = CHR 0x0D) then True else eol)"
  define s2 where "s2 = TrimLeftFunc s1 whitespace"
  have w: "whitespace s2 = 0"
    using TrimLeftFunc_result [of s1 whitespace] unfolding s2_def by (auto simp: whitespace_Nil)
  show ?case
  proof (cases "length s2 \<le> 1 \<or> hd s2 \<noteq> CHR ''%''")
    case True
    then show ?thesis
      using w by (simp add: trimLeftSpace_loop_step [OF s1_def eol1_def s2_def])
  next
    case False
    then show ?thesis
      using "1.IH" [OF s1_def eol1_def s2_def]
      by (simp add: trimLeftSpace_loop_step [OF s1_def eol1_def s2_def])
  qed
qed

lemma trimLeftSpace_result:
  "whitespace (fst (trimLeftSpace s relaxed)) = 0
   \<and> (length (fst (trimLeftSpace s relaxed)) \<le> 1 \<or> hd (fst (trimLeftSpace s relaxed)) \<noteq> CHR ''%'')"
  unfolding trimLeftSpace_def by (rule trimLeftSpace_loop_result)

lemma ParseUint_loop_digits:
  "ParseUint_loop ds n = Inr m \<Longrightarrow> \<forall>c\<in>set ds. digitVal c \<noteq> None"
proof (induction ds arbitrary: n)
  case Nil
  then show ?case by simp
next
  case (Cons c cs)
  from Cons.prems obtain d where d: "digitVal c = Some d"
    by (cases "digitVal c") auto
  from Cons.prems d obtain n' where "ParseUint_loop cs n' = Inr m"
    by (auto split: if_splits)
  from Cons.IH [OF this] d show ?case by simp
qed

lemma ParseUint_loop_first:
  "ParseUint_loop (c # cs) n \<noteq> Inl ErrSyntax \<Longrightarrow> digitVal c \<noteq> None"
  by (cases "digitVal c") auto

lemma Atoi_sign:
  "c = CHR ''+'' \<or> c = CHR ''-'' \<Longrightarrow> Atoi (c # cs) =
     (if cs = [] then Inl ErrSyntax
      else (case ParseUint_loop cs 0 of
              Inl e \<Rightarrow> Inl e
            | Inr un \<Rightarrow>
                (if c \<noteq> CHR ''-'' \<and> un \<ge> 2 ^ 63 then Inl ErrRange
                 else if c = CHR ''-'' \<and> un > 2 ^ 63 then Inl ErrRange
                 else Inr (if c = CHR ''-'' then - un else un))))"
  unfolding Atoi_def Let_def list.case by (simp only: if_True)

lemma Atoi_no_sign:
  "c \<noteq> CHR ''+'' \<Longrightarrow> c \<noteq> CHR ''-'' \<Longrightarrow> Atoi (c # cs) =
      (case ParseUint_loop (c # cs) 0 of
              Inl e \<Rightarrow> Inl e
            | Inr un \<Rightarrow> (if un \<ge> 2 ^ 63 then Inl ErrRange else Inr un))"
  unfolding Atoi_def Let_def list.case by (simp only: if_False simp_thms list.simps)

lemma digitVal_not_sign: "digitVal c \<noteq> None \<Longrightarrow> c \<noteq> CHR ''+'' \<and> c \<noteq> CHR ''-'' \<and> c \<noteq> CHR ''.''"
  by (auto simp: digitVal_def)

lemma Atoi_Inr_chars:
  assumes "Atoi s = Inr i"
  shows "s \<noteq> [] \<and> (\<forall>c\<in>set s. digitVal c \<noteq> None \<or> c = CHR ''+'' \<or> c = CHR ''-'')"
proof (cases s)
  case Nil
  with assms show ?thesis by (simp add: Atoi_def)
next
  case (Cons c cs)
  show ?thesis
  proof (cases "c = CHR ''+'' \<or> c = CHR ''-''")
    case True
    from assms obtain un where "ParseUint_loop cs 0 = Inr un"
      unfolding Cons Atoi_sign [OF True]
      by (cases "ParseUint_loop cs 0") (simp_all split: if_splits)
    then have "\<forall>c\<in>set cs. digitVal c \<noteq> None" by (rule ParseUint_loop_digits)
    with True show ?thesis unfolding Cons by simp
  next
    case False
    then have ns: "c \<noteq> CHR ''+''" "c \<noteq> CHR ''-''" by simp_all
    from assms obtain un where "ParseUint_loop (c # cs) 0 = Inr un"
      unfolding Cons Atoi_no_sign [OF ns]
      by (cases "ParseUint_loop (c # cs) 0") (simp_all del: ParseUint_loop.simps)
    then have "\<forall>c\<in>set (c # cs). digitVal c \<noteq> None" by (rule ParseUint_loop_digits)
    then show ?thesis unfolding Cons by simp
  qed
qed

lemma Atoi_not_syntax_first:
  assumes "Atoi s \<noteq> Inl ErrSyntax"
  shows "s \<noteq> [] \<and> (digitVal (hd s) \<noteq> None \<or> hd s = CHR ''+'' \<or> hd s = CHR ''-'')"
proof (cases s)
  case Nil
  with assms show ?thesis by (simp add: Atoi_def)
next
  case (Cons c cs)
  show ?thesis
  proof (cases "c = CHR ''+'' \<or> c = CHR ''-''")
    case True
    then show ?thesis unfolding Cons by simp
  next
    case False
    then have ns: "c \<noteq> CHR ''+''" "c \<noteq> CHR ''-''" by simp_all
    from assms have "ParseUint_loop (c # cs) 0 \<noteq> Inl ErrSyntax"
      unfolding Cons Atoi_no_sign [OF ns]
      by (cases "ParseUint_loop (c # cs) 0") (simp_all del: ParseUint_loop.simps)
    then have "digitVal c \<noteq> None" by (rule ParseUint_loop_first)
    then show ?thesis unfolding Cons by simp
  qed
qed

lemma Atoi_zero_prefix:
  assumes "Atoi (CHR ''0'' # c # cs) \<noteq> Inl ErrSyntax"
  shows "c \<noteq> CHR ''+'' \<and> c \<noteq> CHR ''-'' \<and> c \<noteq> CHR ''.''"
proof -
  have e: "Atoi (CHR ''0'' # c # cs) =
      (case ParseUint_loop (CHR ''0'' # c # cs) 0 of
              Inl e \<Rightarrow> Inl e
            | Inr un \<Rightarrow> (if un \<ge> 2 ^ 63 then Inl ErrRange else Inr un))"
    by (rule Atoi_no_sign) simp_all
  have "ParseUint_loop (CHR ''0'' # c # cs) 0 \<noteq> Inl ErrSyntax"
    using assms unfolding e
    by (cases "ParseUint_loop (CHR ''0'' # c # cs) 0") (simp_all del: ParseUint_loop.simps)
  moreover have "ParseUint_loop (CHR ''0'' # c # cs) 0 = ParseUint_loop (c # cs) 0"
    by (simp add: digitVal_def del: ParseUint_loop.simps
        add: ParseUint_loop.simps(2) [of "CHR ''0''"])
  ultimately have "ParseUint_loop (c # cs) 0 \<noteq> Inl ErrSyntax" by simp
  then have "digitVal c \<noteq> None" by (rule ParseUint_loop_first)
  then show ?thesis by (rule digitVal_not_sign)
qed


lemma digitVal_cases:
  "digitVal c \<noteq> None \<Longrightarrow> c \<in> set ''0123456789''"
  by (auto simp: digitVal_def split: if_splits)

lemma numByte_props:
  assumes "digitVal c \<noteq> None \<or> c = CHR ''+'' \<or> c = CHR ''-''"
  shows "regularByte c" "c \<notin> set ''/<([]>%''" "c \<notin> set ''/<([]>''"
    "c \<noteq> CHR ''['' \<and> c \<noteq> CHR ''/'' \<and> c \<noteq> CHR ''<'' \<and> c \<noteq> CHR ''(''"
    "c \<noteq> CHR ''n'' \<and> c \<noteq> CHR ''t'' \<and> c \<noteq> CHR ''f''"
proof -
  from assms have "c \<in> set ''+-0123456789''"
    using digitVal_cases [of c] by auto
  then consider "c = CHR ''+''" | "c = CHR ''-''" | "c = CHR ''0''" | "c = CHR ''1''"
    | "c = CHR ''2''" | "c = CHR ''3''" | "c = CHR ''4''" | "c = CHR ''5''" | "c = CHR ''6''"
    | "c = CHR ''7''" | "c = CHR ''8''" | "c = CHR ''9''"
    by auto
  then have "regularByte c \<and> c \<notin> set ''/<([]>%'' \<and> c \<notin> set ''/<([]>''
    \<and> (c \<noteq> CHR ''['' \<and> c \<noteq> CHR ''/'' \<and> c \<noteq> CHR ''<'' \<and> c \<noteq> CHR ''('')
    \<and> (c \<noteq> CHR ''n'' \<and> c \<noteq> CHR ''t'' \<and> c \<noteq> CHR ''f'')"
    by cases (simp_all add: regularByte_def asciiSpace_def)
  then show "regularByte c" "c \<notin> set ''/<([]>%''" "c \<notin> set ''/<([]>''"
    "c \<noteq> CHR ''['' \<and> c \<noteq> CHR ''/'' \<and> c \<noteq> CHR ''<'' \<and> c \<noteq> CHR ''(''"
    "c \<noteq> CHR ''n'' \<and> c \<noteq> CHR ''t'' \<and> c \<noteq> CHR ''f''"
    by simp_all
qed

lemma pos_positive:
  assumes "0 < fst (positionToNextWhitespaceOrChar s chars)" "chars \<noteq> []"
  obtains k where "scanWhitespaceOrChar s chars = Some k" "0 < k"
    "fst (positionToNextWhitespaceOrChar s chars) = int k"
  using assms unfolding positionToNextWhitespaceOrChar_def
  by (cases "scanWhitespaceOrChar s chars") auto

lemma delimiter_chars: "c \<in> set ''/<([]>'' \<Longrightarrow> delimiter c"
  by (auto simp: delimiter_def)

lemma non_delimiter_chars: "c \<in> set ''/<([]>%'' \<Longrightarrow> \<not> delimiter c \<Longrightarrow> c = CHR ''%''"
  by (auto simp: delimiter_def)

lemma forwardParseBuf_R: "forwardParseBuf (c # rest) (Suc 0) = rest"
  by (cases rest) (simp_all add: forwardParseBuf_def)

lemma parseIndRef_shape:
  assumes "parseIndRef s l l1 line i i2 False = (r, c)"
  shows "(r = Inr (Integer i) \<and> c = l1)
    \<or> (\<exists>g rest. r = Inr (IndirectRef i g) \<and> c = rest \<and> Atoi s = Inr g
          \<and> fst (trimLeftSpace (drop (nat i2) l) False) = CHR ''R'' # rest)"
proof (cases "Atoi s")
  case (Inl e)
  with assms show ?thesis by (simp add: parseIndRef_def)
next
  case (Inr g)
  define t where "t = fst (trimLeftSpace (drop (nat i2) l) False)"
  show ?thesis
  proof (cases "t = [] \<or> hd t \<noteq> CHR ''R''")
    case True
    with assms Inr show ?thesis
      unfolding parseIndRef_def Let_def t_def [symmetric] by (auto split: if_splits)
  next
    case False
    then obtain rest where t: "t = CHR ''R'' # rest" by (cases t) auto
    with assms Inr have "r = Inr (IndirectRef i g) \<and> c = rest"
      unfolding parseIndRef_def Let_def t_def [symmetric] by (auto simp: forwardParseBuf_R)
    with Inr t show ?thesis unfolding t_def by simp
  qed
qed


lemma numericOrIndRef_int_shape:
  assumes res: "numericOrIndRef_int line l1 i1 i False = (r, c)"
    and i1: "i1 = fst (positionToNextWhitespaceOrChar line ''/<([]>%'')"
  shows "(r = Inr (Integer i) \<and> c = l1)
    \<or> (\<exists>g sep1 tok2 sep2 rest.
          r = Inr (IndirectRef i g) \<and> c = rest \<and> 0 < i1
          \<and> drop (nat i1) line = sep1 @ tok2 @ sep2 @ CHR ''R'' # rest
          \<and> sep1 \<noteq> [] \<and> Atoi tok2 = Inr g
          \<and> (0 < whitespace (drop (nat i1) line) \<or> hd (drop (nat i1) line) = CHR ''%'')
          \<and> fst (trimLeftSpace (drop (nat i1) line) False) = tok2 @ sep2 @ CHR ''R'' # rest
          \<and> 0 < whitespace (sep2 @ CHR ''R'' # rest)
          \<and> fst (trimLeftSpace (sep2 @ CHR ''R'' # rest) False) = CHR ''R'' # rest)"
proof -
  define l2 where "l2 = fst (trimLeftSpace (drop (nat i1) line) False)"
  define i2 where "i2 = fst (positionToNextWhitespaceOrChar l2 ''/<([]>'')"
  show ?thesis
  proof (cases "i1 \<le> 0 \<or> delimiter (line ! nat i1) \<or> length l2 = 0
      \<or> i2 \<le> 0 \<or> delimiter (l2 ! nat i2)")
    case True
    with res show ?thesis
      unfolding numericOrIndRef_int_def Let_def l2_def [symmetric] i2_def [symmetric]
      by (auto split: if_splits)
  next
    case False
    then have p: "0 < i1" "\<not> delimiter (line ! nat i1)" "l2 \<noteq> []" "0 < i2"
      "\<not> delimiter (l2 ! nat i2)"
      by auto
    have "parseIndRef (take (nat i2) l2) l2 l1 line i i2 False = (r, c)"
      using res p unfolding numericOrIndRef_int_def Let_def l2_def [symmetric] i2_def [symmetric]
      by simp
    from parseIndRef_shape [OF this] show ?thesis
    proof
      assume "r = Inr (Integer i) \<and> c = l1"
      then show ?thesis by simp
    next
      assume "\<exists>g rest. r = Inr (IndirectRef i g) \<and> c = rest \<and> Atoi (take (nat i2) l2) = Inr g
          \<and> fst (trimLeftSpace (drop (nat i2) l2) False) = CHR ''R'' # rest"
      then obtain g rest where r: "r = Inr (IndirectRef i g)" "c = rest"
        and g: "Atoi (take (nat i2) l2) = Inr g"
        and t3: "fst (trimLeftSpace (drop (nat i2) l2) False) = CHR ''R'' # rest"
        by blast
      \<comment> \<open>the first separator\<close>
      obtain k1 where k1: "scanWhitespaceOrChar line ''/<([]>%'' = Some k1" "0 < k1" "i1 = int k1"
        using p(1) unfolding i1 by (rule pos_positive [where chars = "''/<([]>%''"]) simp_all
      from scan_Some_props [OF k1(1)] have k1p: "k1 < length line"
        "line ! k1 \<in> set ''/<([]>%'' \<or> 0 < whitespace (drop k1 line)"
        by simp_all
      have hd1: "hd (drop k1 line) = line ! k1"
        using k1p(1) by (simp add: hd_drop_conv_nth)
      have start1: "0 < whitespace (drop k1 line) \<or> hd (drop k1 line) = CHR ''%''"
        using k1p(2) p(2) non_delimiter_chars [of "line ! k1"] hd1 k1(3) by auto
      have "suffix l2 (drop k1 line)"
        unfolding l2_def k1(3) using suffix_trimLeftSpace by simp
      then obtain sep1 where sep1: "drop k1 line = sep1 @ l2"
        by (auto simp: suffix_def)
      \<comment> \<open>the second separator\<close>
      obtain k2 where k2: "scanWhitespaceOrChar l2 ''/<([]>'' = Some k2" "0 < k2" "i2 = int k2"
        using p(4) unfolding i2_def by (rule pos_positive [where chars = "''/<([]>''"]) simp_all
      from scan_Some_props [OF k2(1)] have k2p: "k2 < length l2"
        "l2 ! k2 \<in> set ''/<([]>'' \<or> 0 < whitespace (drop k2 l2)"
        by simp_all
      have start2: "0 < whitespace (drop k2 l2)"
        using k2p(2) p(5) delimiter_chars [of "l2 ! k2"] k2(3) by auto
      have "suffix (CHR ''R'' # rest) (drop k2 l2)"
        using suffix_trimLeftSpace [of "drop k2 l2" False] t3 k2(3) by simp
      then obtain sep2 where sep2: "drop k2 l2 = sep2 @ CHR ''R'' # rest"
        by (auto simp: suffix_def)
      have l2_split: "l2 = take k2 l2 @ sep2 @ CHR ''R'' # rest"
        using sep2 append_take_drop_id [of k2 l2] by simp
      \<comment> \<open>the first separator is not empty\<close>
      have "sep1 \<noteq> []"
      proof
        assume "sep1 = []"
        with sep1 have e: "drop k1 line = l2" by simp
        from trimLeftSpace_result [of "drop k1 line" False]
        have w: "whitespace l2 = 0" and pc: "length l2 \<le> 1 \<or> hd l2 \<noteq> CHR ''%''"
          unfolding l2_def k1(3) by simp_all
        from start1 e w have "hd l2 = CHR ''%''" by simp
        with pc have "length l2 \<le> 1" by simp
        with k2p(1) k2(2) show False by simp
      qed
      show ?thesis
        apply (rule disjI2)
        apply (rule exI [of _ g], rule exI [of _ sep1], rule exI [of _ "take k2 l2"],
            rule exI [of _ sep2], rule exI [of _ rest])
        using r p(1) sep1 l2_split \<open>sep1 \<noteq> []\<close> g start1 start2 sep2 t3 k1(3) k2(3)
        unfolding l2_def [symmetric]
        by simp
    qed
  qed
qed

subsection \<open>Integers and indirect references\<close>

lemma startParse_props:
  assumes "startParseNumericOrIndRef l = (s, l1, i1)"
  shows "i1 = fst (positionToNextWhitespaceOrChar l ''/<([]>%'')"
    and "l1 = (if 0 < i1 then drop (nat i1) l else [])"
    and "\<exists>z. (if 0 < i1 then take (nat i1) l else l) = z @ s"
    and "s \<noteq> [] \<Longrightarrow> l \<noteq> [] \<and> (hd l = hd s \<or> hd l = CHR ''0'')"
proof -
  define str where "str = (if 0 < i1 then take (nat i1) l else l)"
  define k where "k = 2 + length (takeWhile (\<lambda>c. c = CHR ''0'') (drop 2 str))"
  from assms show i: "i1 = fst (positionToNextWhitespaceOrChar l ''/<([]>%'')"
    unfolding startParseNumericOrIndRef_def Let_def by simp
  from assms show "l1 = (if 0 < i1 then drop (nat i1) l else [])"
    unfolding startParseNumericOrIndRef_def Let_def by auto
  have s: "s = (if length str > 1 \<and> str ! 0 = CHR ''0'' then
               (if str ! 1 = CHR ''+'' \<or> str ! 1 = CHR ''-'' then drop 1 str
                else if str ! 1 = CHR ''.'' then
                  (if length str > k \<and> (str ! k = CHR ''+'' \<or> str ! k = CHR ''-'')
                      then drop k str else str)
                else str)
             else str)"
    using assms unfolding startParseNumericOrIndRef_def Let_def str_def k_def i [symmetric]
    by simp
  then consider "s = str" | j where "s = drop j str" "length str > 1" "str ! 0 = CHR ''0''"
    by (auto split: if_splits)
  then have "(\<exists>z. str = z @ s) \<and> (s \<noteq> [] \<longrightarrow> str \<noteq> [] \<and> (hd str = hd s \<or> hd str = CHR ''0''))"
  proof cases
    case 1
    then show ?thesis by auto
  next
    case 2
    have "str = take j str @ s" using 2(1) by simp
    moreover have "str \<noteq> [] \<and> hd str = CHR ''0''"
      using 2(2,3) by (cases str) auto
    ultimately show ?thesis by blast
  qed
  then have a: "\<exists>z. str = z @ s" and b: "s \<noteq> [] \<Longrightarrow> str \<noteq> [] \<and> (hd str = hd s \<or> hd str = CHR ''0'')"
    by blast+
  from a show "\<exists>z. (if 0 < i1 then take (nat i1) l else l) = z @ s"
    unfolding str_def .
  show "l \<noteq> [] \<and> (hd l = hd s \<or> hd l = CHR ''0'')" if "s \<noteq> []"
  proof -
    from b [OF that] have c: "str \<noteq> []" "hd str = hd s \<or> hd str = CHR ''0''" by simp_all
    have "l \<noteq> [] \<and> hd str = hd l"
      using c(1) unfolding str_def by (cases l) (auto split: if_splits simp: take_Cons')
    with c(2) show ?thesis by auto
  qed
qed

lemma ParseObject_numeric:
  fixes pf :: "string \<Rightarrow> 'f option"
  assumes l: "fst (trimLeftSpace line False) = l" and ne: "l \<noteq> []"
    and num: "digitVal (hd l) \<noteq> None \<or> hd l = CHR ''+'' \<or> hd l = CHR ''-''"
  shows "ParseObject pf (Suc n) line =
    (case parseNumericOrIndRef pf l of
       (Inl err, _) \<Rightarrow> Some (Inl err, line)
     | (Inr val, l') \<Rightarrow> Some (Inr val, l'))"
proof -
  have "suffix l line" using suffix_trimLeftSpace [of line False] l by simp
  with ne have nb: "\<not> noBuf line" by (auto simp: noBuf_def)
  note np = numByte_props [OF num]
  from ne obtain c cs where lc: "l = c # cs" by (cases l) auto
  have pb: "parseBooleanOrNull l = (Null :: 'f Object, [], False)"
    using np(5) unfolding parseBooleanOrNull_def lc by auto
  show ?thesis
    using nb ne np(4) pb unfolding ParseObject.simps ParseObject_body_def Let_def l
    by simp
qed

text \<open>
  Claim C5. The buffer, after the leading white space, is \<open>l\<close>; its first token, as
  \<^verbatim>\<open>startParseNumericOrIndRef\<close> cuts and repairs it, is \<open>s\<close>, and \<open>l1\<close> is the short
  remainder, the part of \<open>l\<close> behind the token. When \<open>s\<close> converts to the integer \<open>i\<close>,
  \<^verbatim>\<open>ParseObject\<close> returns either \<open>Integer i\<close> with the cursor \<open>l1\<close>, or an indirect
  reference to \<open>i\<close>; and the latter only when \<open>l1\<close> is a separator, a second token that
  converts to an integer \<open>g\<close>, a separator and the byte \<^verbatim>\<open>R\<close>. A separator is what
  \<^verbatim>\<open>trimLeftSpace\<close> skips: the first starts with white space or with a comment, the second
  with white space.
\<close>

theorem C5_integer_or_indirect_ref:
  assumes "fst (trimLeftSpace line False) = l"
    and "startParseNumericOrIndRef l = (s, l1, i1)"
    and "Atoi s = Inr i"
  shows "(\<exists>tok. l = tok @ l1 \<and> suffix s tok)
    \<and> (ParseObject pf (Suc n) line = Some (Inr (Integer i), l1)
       \<or> (\<exists>g sep1 tok2 sep2 rest.
            ParseObject pf (Suc n) line = Some (Inr (IndirectRef i g), rest)
            \<and> l1 = sep1 @ tok2 @ sep2 @ CHR ''R'' # rest
            \<and> sep1 \<noteq> [] \<and> Atoi tok2 = Inr g
            \<and> (0 < whitespace l1 \<or> hd l1 = CHR ''%'')
            \<and> fst (trimLeftSpace l1 False) = tok2 @ sep2 @ CHR ''R'' # rest
            \<and> 0 < whitespace (sep2 @ CHR ''R'' # rest)
            \<and> fst (trimLeftSpace (sep2 @ CHR ''R'' # rest) False) = CHR ''R'' # rest))"
proof -
  note sp = startParse_props [OF assms(2)]
  from Atoi_Inr_chars [OF assms(3)] have sne: "s \<noteq> []"
    and sc: "\<forall>c\<in>set s. digitVal c \<noteq> None \<or> c = CHR ''+'' \<or> c = CHR ''-''"
    by simp_all
  from sp(4) [OF sne] have lne: "l \<noteq> []" and hl: "hd l = hd s \<or> hd l = CHR ''0''"
    by simp_all
  have "digitVal (hd s) \<noteq> None \<or> hd s = CHR ''+'' \<or> hd s = CHR ''-''"
    using sne sc by (cases s) auto
  moreover have "digitVal (CHR ''0'') \<noteq> None" by (simp add: digitVal_def)
  ultimately have num: "digitVal (hd l) \<noteq> None \<or> hd l = CHR ''+'' \<or> hd l = CHR ''-''"
    using hl by auto
  have po: "ParseObject pf (Suc n) line =
    (case parseNumericOrIndRef pf l of
       (Inl err, _) \<Rightarrow> Some (Inl err, line)
     | (Inr val, l') \<Rightarrow> Some (Inr val, l'))"
    using assms(1) lne num by (rule ParseObject_numeric)
  have pn: "parseNumericOrIndRef pf l = numericOrIndRef_int l l1 i1 i False"
    using lne assms(2,3) by (simp add: parseNumericOrIndRef_def noBuf_def)
  obtain r c where rc: "numericOrIndRef_int l l1 i1 i False = (r :: error + 'a Object, c)"
    by (cases "numericOrIndRef_int l l1 i1 i False :: (error + 'a Object) \<times> string") auto
  have first: "\<exists>tok. l = tok @ l1 \<and> suffix s tok"
  proof (cases "0 < i1")
    case True
    with sp(2,3) obtain z where z: "l1 = drop (nat i1) l" "take (nat i1) l = z @ s" by auto
    have "l = take (nat i1) l @ l1" unfolding z(1) by simp
    moreover have "suffix s (take (nat i1) l)" unfolding z(2) by (simp add: suffix_def)
    ultimately show ?thesis by blast
  next
    case False
    with sp(2,3) obtain z where z: "l1 = []" "l = z @ s" by auto
    have "l = l @ l1" unfolding z(1) by simp
    moreover have "suffix s l" using z(2) by (auto simp: suffix_def)
    ultimately show ?thesis by blast
  qed
  from numericOrIndRef_int_shape [OF rc sp(1)]
  have second: "ParseObject pf (Suc n) line = Some (Inr (Integer i), l1)
       \<or> (\<exists>g sep1 tok2 sep2 rest.
            ParseObject pf (Suc n) line = Some (Inr (IndirectRef i g), rest)
            \<and> l1 = sep1 @ tok2 @ sep2 @ CHR ''R'' # rest
            \<and> sep1 \<noteq> [] \<and> Atoi tok2 = Inr g
            \<and> (0 < whitespace l1 \<or> hd l1 = CHR ''%'')
            \<and> fst (trimLeftSpace l1 False) = tok2 @ sep2 @ CHR ''R'' # rest
            \<and> 0 < whitespace (sep2 @ CHR ''R'' # rest)
            \<and> fst (trimLeftSpace (sep2 @ CHR ''R'' # rest) False) = CHR ''R'' # rest)"
  proof
    assume "r = Inr (Integer i) \<and> c = l1"
    then show ?thesis using po pn rc by simp
  next
    assume "\<exists>g sep1 tok2 sep2 rest.
          r = Inr (IndirectRef i g) \<and> c = rest \<and> 0 < i1
          \<and> drop (nat i1) l = sep1 @ tok2 @ sep2 @ CHR ''R'' # rest
          \<and> sep1 \<noteq> [] \<and> Atoi tok2 = Inr g
          \<and> (0 < whitespace (drop (nat i1) l) \<or> hd (drop (nat i1) l) = CHR ''%'')
          \<and> fst (trimLeftSpace (drop (nat i1) l) False) = tok2 @ sep2 @ CHR ''R'' # rest
          \<and> 0 < whitespace (sep2 @ CHR ''R'' # rest)
          \<and> fst (trimLeftSpace (sep2 @ CHR ''R'' # rest) False) = CHR ''R'' # rest"
    then obtain g sep1 tok2 sep2 rest where h: "r = Inr (IndirectRef i g)" "c = rest" "0 < i1"
      "drop (nat i1) l = sep1 @ tok2 @ sep2 @ CHR ''R'' # rest"
      "sep1 \<noteq> []" "Atoi tok2 = Inr g"
      "0 < whitespace (drop (nat i1) l) \<or> hd (drop (nat i1) l) = CHR ''%''"
      "fst (trimLeftSpace (drop (nat i1) l) False) = tok2 @ sep2 @ CHR ''R'' # rest"
      "0 < whitespace (sep2 @ CHR ''R'' # rest)"
      "fst (trimLeftSpace (sep2 @ CHR ''R'' # rest) False) = CHR ''R'' # rest"
      by blast
    from h(3) sp(2) have l1: "drop (nat i1) l = l1" by simp
    have "ParseObject pf (Suc n) line = Some (Inr (IndirectRef i g), rest)"
      using po pn rc h(1,2) by simp
    with h(4-10) show ?thesis unfolding l1 by blast
  qed
  from first second show ?thesis by (rule conjI)
qed


theorem C5_integer_or_indirect_ref_witness:
  "fst (trimLeftSpace ''1 2'' False) = ''1 2''
   \<and> startParseNumericOrIndRef ''1 2'' = (''1'', '' 2'', 1)
   \<and> Atoi ''1'' = Inr 1
   \<and> ParseObject (\<lambda>s. None :: unit option) (Suc 0) ''1 2'' = Some (Inr (Integer 1), '' 2'')
   \<and> fst (trimLeftSpace ''12 0 R'' False) = ''12 0 R''
   \<and> startParseNumericOrIndRef ''12 0 R'' = (''12'', '' 0 R'', 2)
   \<and> Atoi ''12'' = Inr 12
   \<and> ParseObject (\<lambda>s. None :: unit option) (Suc 0) ''12 0 R'' = Some (Inr (IndirectRef 12 0), [])"
proof -
  have a: "fst (trimLeftSpace ''1 2'' False) = ''1 2''"
    and b: "startParseNumericOrIndRef ''1 2'' = (''1'', '' 2'', 1)"
    and c: "Atoi ''1'' = Inr 1"
    and d: "ParseObject (\<lambda>s. None :: unit option) (Suc 0) ''1 2'' = Some (Inr (Integer 1), '' 2'')"
    by code_simp+
  have a': "fst (trimLeftSpace ''12 0 R'' False) = ''12 0 R''"
    and b': "startParseNumericOrIndRef ''12 0 R'' = (''12'', '' 0 R'', 2)"
    and c': "Atoi ''12'' = Inr 12"
    and d': "ParseObject (\<lambda>s. None :: unit option) (Suc 0) ''12 0 R''
        = Some (Inr (IndirectRef 12 0), [])"
    by code_simp+
  from C5_integer_or_indirect_ref [OF a b c, of "\<lambda>s. None :: unit option" 0]
    C5_integer_or_indirect_ref [OF a' b' c', of "\<lambda>s. None :: unit option" 0]
    a b c d a' b' c' d'
  show ?thesis by simp
qed

end
